theory Spec2Isabelle
  imports Main "HOL-Library.Word" "HOL-Library.Char_ord" "HOL-Library.List_Lexorder"
begin

section \<open>Serial port routines of sim\_serial.c\<close>

text \<open>
  A shallow embedding of \<^verbatim>\<open>sim_serial.c\<close>: the stream decoders of
  \<^verbatim>\<open>sim_read_serial\<close> (the termios backend, which unescapes PARMRK sequences in
  place, and the Windows backend, which guesses the position of a BREAK), the list of
  open serial devices, the merged and sorted device list, the translation of a user
  supplied name in \<^verbatim>\<open>sim_open_serial\<close>, and the status returned by
  \<^verbatim>\<open>sim_config_serial\<close>.

  Buffers are lists of bytes, pointers into a buffer are indices, host calls are
  parameters giving their result. Names and descriptions are taken to fit the arrays
  of \<^verbatim>\<open>SER_DEV_NAME_MAX\<close> and \<^verbatim>\<open>SER_DEV_DESC_MAX\<close> characters that hold them. The
  definitions come first, then the lemmas about them, then the claims.
\<close>

subsection \<open>Buffers and the C library routines used on them\<close>

type_synonym byte = "8 word"

text \<open>\<^verbatim>\<open>memchr (buf + s, c, n)\<close>: the index of the first \<open>c\<close> among the \<open>n\<close> bytes
  starting at index \<open>s\<close>, or \<open>None\<close> for the null pointer.\<close>

fun memchr :: "byte list \<Rightarrow> nat \<Rightarrow> byte \<Rightarrow> nat \<Rightarrow> nat option" where
  "memchr buf s c 0 = None"
| "memchr buf s c (Suc n) = (if buf ! s = c then Some s else memchr buf (Suc s) c n)"

text \<open>\<^verbatim>\<open>memmove (buf + dst, buf + src, n)\<close>: the \<open>n\<close> bytes at \<open>src\<close> are copied to
  \<open>dst\<close>, as if through a temporary; the rest of the buffer is untouched.\<close>

definition memmove :: "byte list \<Rightarrow> nat \<Rightarrow> nat \<Rightarrow> nat \<Rightarrow> byte list" where
  "memmove buf dst src n = take dst buf @ take n (drop src buf) @ drop (dst + n) buf"

subsection \<open>Reading from a serial port, termios backend\<close>

text \<open>The result of the host's \<^verbatim>\<open>read\<close>: the bytes it delivered, or \<open>-1\<close> with
  \<^verbatim>\<open>errno\<close>.\<close>

datatype host_read = Read_bytes "byte list" | Read_error int

definition EAGAIN :: int where
  "EAGAIN = 11"

text \<open>The \<^verbatim>\<open>while\<close> loop of \<^verbatim>\<open>sim_read_serial\<close>. \<open>cptr\<close> and \<open>bptr\<close> are indices
  into \<open>buffer\<close>; the result is the buffer, the break flags and the read count.\<close>

function unescape :: "byte list \<Rightarrow> byte list \<Rightarrow> nat \<Rightarrow> int \<Rightarrow> int \<Rightarrow> byte list \<times> byte list \<times> int" where
  "unescape buffer brk cptr remaining read_count =
    (if remaining > 0 then
       (case memchr buffer cptr 0xFF (nat remaining) of
          None \<Rightarrow> (buffer, brk, read_count)
        | Some bptr \<Rightarrow>
            (let remaining = remaining - (int bptr - int cptr) - 1 in
             if buffer ! (bptr + 1) = 0xFF then
               unescape (memmove buffer (bptr + 1) (bptr + 2) (nat remaining)) brk
                 (bptr + 1) (remaining - 1) (read_count - 1)
             else if remaining > 0 \<and> buffer ! (bptr + 1) = 0 then
               (let buffer = memmove buffer bptr (bptr + 2) (nat remaining);
                    brk = (if buffer ! bptr = 0 then brk[bptr := 1] else brk)
                in unescape buffer brk (bptr + 1) (remaining - 2) (read_count - 2))
             else unescape buffer brk (bptr + 1) remaining read_count))
     else (buffer, brk, read_count))"
  by pat_completeness auto

termination unescape
proof -
  have ge: "s \<le> p" if "memchr buf s c n = Some p" for buf s c n p
    using that by (induction buf s c n rule: memchr.induct) (auto split: if_splits)
  show ?thesis
    by (relation "measure (\<lambda>(buffer, brk, cptr, remaining, read_count). nat remaining)")
       (auto dest: ge)
qed

text \<open>\<^verbatim>\<open>sim_read_serial\<close> of the termios backend. The host's \<^verbatim>\<open>read\<close> stores its
  bytes at the start of \<open>buffer\<close>. A read error other than \<^verbatim>\<open>EAGAIN\<close> is reported
  and \<open>-1\<close> is returned.\<close>

definition sim_read_serial_unix ::
    "host_read \<Rightarrow> byte list \<Rightarrow> byte list \<Rightarrow> int \<times> byte list \<times> byte list" where
  "sim_read_serial_unix rd buffer brk =
    (case rd of
       Read_error errno \<Rightarrow> (if errno = EAGAIN then (0, buffer, brk) else (-1, buffer, brk))
     | Read_bytes xs \<Rightarrow>
         (let buffer = xs @ drop (length xs) buffer;
              read_count = int (length xs);
              (buffer, brk, read_count) = unescape buffer brk 0 (read_count - 1) read_count
          in (read_count, buffer, brk)))"

text \<open>The decoding as the specification words it (Encoding A): \<open>ESC ESC\<close> stands for one
  \<open>ESC\<close>, \<open>ESC NUL C\<close> for the byte \<open>C\<close>, which is a BREAK when \<open>C\<close> is \<open>NUL\<close>; any
  other byte stands for itself. Each output byte carries its break flag.\<close>

fun decodeA_spec :: "byte list \<Rightarrow> (byte \<times> bool) list" where
  "decodeA_spec (a # b # rest) =
    (if a = 0xFF \<and> b = 0xFF then (0xFF, False) # decodeA_spec rest
     else if a = 0xFF \<and> b = 0 then
       (case rest of
          [] \<Rightarrow> [(a, False), (b, False)]
        | c # rest' \<Rightarrow> (c, c = 0) # decodeA_spec rest')
     else (a, False) # decodeA_spec (b # rest))"
| "decodeA_spec [a] = [(a, False)]"
| "decodeA_spec [] = []"

text \<open>The break flags after a read whose output carries the flags \<open>fs\<close> from position
  \<open>p\<close> on: the flagged slots are set to 1, no other slot is written.\<close>

fun mark_breaks :: "nat \<Rightarrow> bool list \<Rightarrow> byte list \<Rightarrow> byte list" where
  "mark_breaks p [] brk = brk"
| "mark_breaks p (f # fs) brk = mark_breaks (Suc p) fs (if f then brk[p := 1] else brk)"

text \<open>What the caller reads after the call: the first \<open>read_count\<close> characters of the
  buffer and, for each of them, whether its break flag is set.\<close>

definition received :: "int \<times> byte list \<times> byte list \<Rightarrow> byte list \<times> bool list" where
  "received r =
    (case r of (read_count, buffer, brk) \<Rightarrow>
       (take (nat read_count) buffer, map (\<lambda>f. f \<noteq> 0) (take (nat read_count) brk)))"

subsection \<open>Reading from a serial port, Windows backend\<close>

text \<open>The bit of the \<^verbatim>\<open>ClearCommError\<close> error mask that reports a BREAK (the value
  of the Windows headers).\<close>

definition CE_BREAK :: "32 word" where
  "CE_BREAK = 0x10"

text \<open>\<^verbatim>\<open>sim_read_serial\<close> of the Windows backend. \<open>cce\<close> is the error mask delivered by
  \<^verbatim>\<open>ClearCommError\<close> and \<open>rf\<close> the bytes delivered by \<^verbatim>\<open>ReadFile\<close>, \<open>None\<close> when
  the call fails. The pointer \<open>brk\<close> is advanced to the first NUL, if there is one,
  before the flag is stored through it.\<close>

definition sim_read_serial_win ::
    "32 word option \<Rightarrow> byte list option \<Rightarrow> byte list \<Rightarrow> byte list \<Rightarrow> int \<times> byte list \<times> byte list" where
  "sim_read_serial_win cce rf buffer brk =
    (case cce of
       None \<Rightarrow> (-1, buffer, brk)
     | Some commerrors \<Rightarrow>
         (case rf of
            None \<Rightarrow> (-1, buffer, brk)
          | Some xs \<Rightarrow>
              (let buffer = xs @ drop (length xs) buffer;
                   read = length xs;
                   brk =
                     (if and commerrors CE_BREAK \<noteq> 0 then
                        (let brk_at = (case memchr buffer 0 0 read of Some bptr \<Rightarrow> 0 + (bptr - 0) | None \<Rightarrow> 0)
                         in brk[brk_at := 1])
                      else brk)
               in (int read, buffer, brk))))"

text \<open>The slot the specification names for a reported BREAK (Encoding B): the position
  of the first NUL among the bytes read, position 0 when there is none.\<close>

definition break_position :: "byte list \<Rightarrow> nat" where
  "break_position xs = (if 0 \<in> set xs then length (takeWhile (\<lambda>b. b \<noteq> 0) xs) else 0)"

subsection \<open>C strings\<close>

text \<open>
  A \<^verbatim>\<open>char *\<close> argument is the list of the characters of its array; the string it
  holds ends before the first NUL, or with the array. \<open>char_at s k\<close> is \<^verbatim>\<open>s[k]\<close>, which
  reads the terminator past the last character. Characters are compared by their
  codes, as \<^verbatim>\<open>unsigned char\<close>; the classification routines are those of the C locale.
\<close>

definition cstr :: "string \<Rightarrow> string" where
  "cstr s = takeWhile (\<lambda>c. c \<noteq> CHR 0x00) s"

definition strlen :: "string \<Rightarrow> nat" where
  "strlen s = length (cstr s)"

text \<open>The string stored by \<^verbatim>\<open>strcpy (dst, src)\<close>.\<close>

definition strcpy :: "string \<Rightarrow> string" where
  "strcpy src = cstr src"

definition char_at :: "string \<Rightarrow> nat \<Rightarrow> char" where
  "char_at s k = (if k < length s then s ! k else CHR 0x00)"

fun strcmp :: "string \<Rightarrow> string \<Rightarrow> int" where
  "strcmp [] [] = 0"
| "strcmp [] (b # bs) = (if b = CHR 0x00 then 0 else -1)"
| "strcmp (a # as) [] = (if a = CHR 0x00 then 0 else 1)"
| "strcmp (a # as) (b # bs) =
    (if (of_char a :: nat) < of_char b then -1
     else if (of_char a :: nat) > of_char b then 1
     else if a = CHR 0x00 then 0
     else strcmp as bs)"

definition islower :: "char \<Rightarrow> bool" where
  "islower c = (97 \<le> (of_char c :: nat) \<and> (of_char c :: nat) \<le> 122)"

definition isupper :: "char \<Rightarrow> bool" where
  "isupper c = (65 \<le> (of_char c :: nat) \<and> (of_char c :: nat) \<le> 90)"

definition isdigit :: "char \<Rightarrow> bool" where
  "isdigit c = (48 \<le> (of_char c :: nat) \<and> (of_char c :: nat) \<le> 57)"

definition isspace :: "char \<Rightarrow> bool" where
  "isspace c = ((of_char c :: nat) = 32 \<or> (9 \<le> (of_char c :: nat) \<and> (of_char c :: nat) \<le> 13))"

definition toupper :: "char \<Rightarrow> char" where
  "toupper c = (if islower c then char_of ((of_char c :: nat) - 32) else c)"

definition tolower :: "char \<Rightarrow> char" where
  "tolower c = (if isupper c then char_of ((of_char c :: nat) + 32) else c)"

fun atoi_digits :: "string \<Rightarrow> int \<Rightarrow> int" where
  "atoi_digits [] acc = acc"
| "atoi_digits (c # cs) acc =
    (if isdigit c then atoi_digits cs (acc * 10 + (int (of_char c) - 48)) else acc)"

definition atoi :: "string \<Rightarrow> int" where
  "atoi s =
    (case dropWhile isspace s of
       [] \<Rightarrow> 0
     | c # cs \<Rightarrow>
         if c = CHR ''-'' then - atoi_digits cs 0
         else if c = CHR ''+'' then atoi_digits cs 0
         else atoi_digits (c # cs) 0)"

text \<open>\<^verbatim>\<open>qsort\<close> with a comparison routine. The C library leaves the order of elements
  that compare equal open; an insertion sort stands for it.\<close>

fun qsort_insert :: "('a \<Rightarrow> 'a \<Rightarrow> int) \<Rightarrow> 'a \<Rightarrow> 'a list \<Rightarrow> 'a list" where
  "qsort_insert cmp x [] = [x]"
| "qsort_insert cmp x (y # ys) = (if cmp x y \<le> 0 then x # y # ys else y # qsort_insert cmp x ys)"

fun qsort :: "('a \<Rightarrow> 'a \<Rightarrow> int) \<Rightarrow> 'a list \<Rightarrow> 'a list" where
  "qsort cmp [] = []"
| "qsort cmp (x # xs) = qsort_insert cmp x (qsort cmp xs)"

subsection \<open>The list of open serial devices\<close>

text \<open>
  \<^verbatim>\<open>SERIAL_LIST\<close> and \<^verbatim>\<open>struct open_serial_device\<close>; the fields \<^verbatim>\<open>name\<close> and \<^verbatim>\<open>desc\<close>
  of the latter are \<open>open_name\<close> and \<open>open_desc\<close> here. A port handle is an integer, a
  line a number. The two static variables make up the state: the array
  \<^verbatim>\<open>serial_open_devices\<close>, which \<^verbatim>\<open>realloc\<close> resizes, and the count of its entries in
  use.
\<close>

record serial_list =
  name :: string
  desc :: string

record open_serial_device =
  port :: int
  line :: nat
  open_name :: string
  open_desc :: string

record open_list =
  serial_open_devices :: "open_serial_device list"
  serial_open_device_count :: nat

definition SER_MAX_DEVICE :: nat where
  "SER_MAX_DEVICE = 64"

definition INVALID_HANDLE :: int where
  "INVALID_HANDLE = -1"

text \<open>\<^verbatim>\<open>_serial_add_to_open_list\<close>: the array is resized to one more entry than are in
  use, and the new last entry is cleared and filled; \<open>desc\<close> may be the null pointer.\<close>

definition serial_add_to_open_list ::
    "int \<Rightarrow> nat \<Rightarrow> string \<Rightarrow> string option \<Rightarrow> open_list \<Rightarrow> open_list" where
  "serial_add_to_open_list prt ln nam dsc st =
    (let count = serial_open_device_count st + 1;
         devices = take (count - 1) (serial_open_devices st) @
                     [\<lparr>port = 0, line = 0, open_name = [], open_desc = []\<rparr>];
         entry = devices ! (count - 1);
         entry = entry\<lparr>port := prt\<rparr>;
         entry = entry\<lparr>line := ln\<rparr>;
         entry = entry\<lparr>open_name := strcpy nam\<rparr>;
         entry = (case dsc of None \<Rightarrow> entry | Some d \<Rightarrow> entry\<lparr>open_desc := strcpy d\<rparr>)
     in \<lparr>serial_open_devices = devices[count - 1 := entry], serial_open_device_count = count\<rparr>)"

text \<open>\<^verbatim>\<open>_serial_remove_from_open_list\<close>: the inner loop moves the entries after index
  \<open>i\<close> one place down, the outer loop looks for the first entry of the port.\<close>

function shift_down :: "open_serial_device list \<Rightarrow> nat \<Rightarrow> nat \<Rightarrow> open_serial_device list" where
  "shift_down devices j count =
    (if j < count then shift_down (devices[j - 1 := devices ! j]) (j + 1) count else devices)"
  by pat_completeness auto

termination shift_down
  by (relation "measure (\<lambda>(devices, j, count). count - j)") auto

declare shift_down.simps [simp del]

function remove_from :: "int \<Rightarrow> nat \<Rightarrow> open_list \<Rightarrow> open_list" where
  "remove_from prt i st =
    (if i < serial_open_device_count st then
       (if port (serial_open_devices st ! i) = prt then
          \<lparr>serial_open_devices = shift_down (serial_open_devices st) (i + 1) (serial_open_device_count st),
           serial_open_device_count = serial_open_device_count st - 1\<rparr>
        else remove_from prt (i + 1) st)
     else st)"
  by pat_completeness auto

termination remove_from
  by (relation "measure (\<lambda>(prt, i, st). serial_open_device_count st - i)") auto

declare remove_from.simps [simp del]

definition serial_remove_from_open_list :: "int \<Rightarrow> open_list \<Rightarrow> open_list" where
  "serial_remove_from_open_list prt st = remove_from prt 0 st"

text \<open>The entries in use, in the order in which \<^verbatim>\<open>sim_show_serial\<close> and
  \<^verbatim>\<open>sim_serial_devices\<close> walk through them.\<close>

definition open_devices :: "open_list \<Rightarrow> open_serial_device list" where
  "open_devices st = take (serial_open_device_count st) (serial_open_devices st)"


text \<open>The removal as the specification words it: the first entry of the handle goes,
  the others keep their order.\<close>

fun unregister_spec :: "int \<Rightarrow> open_serial_device list \<Rightarrow> open_serial_device list" where
  "unregister_spec h [] = []"
| "unregister_spec h (d # ds) = (if port d = h then ds else d # unregister_spec h ds)"

subsection \<open>The list of serial devices\<close>

text \<open>
  \<^verbatim>\<open>sim_serial_os_devices\<close> fills the caller's array of \<open>max\<close> entries and returns the
  number of entries it stored. On the termios backend it probes the device files of a
  fixed range while fewer than \<open>max\<close> entries are stored; \<open>ttys\<close> is the list of those
  that open as terminals, in the order of the probes.
\<close>

definition sim_serial_os_devices_unix :: "serial_list list \<Rightarrow> nat \<Rightarrow> serial_list list" where
  "sim_serial_os_devices_unix ttys max' = take max' ttys"

text \<open>
  On the Windows backend it walks the values of a registry key; a value comes with the
  mark of a string value of non-zero size. Every value is stored in \<^verbatim>\<open>list[ports]\<close>; a
  marked value is counted, and then the entry \<^verbatim>\<open>list[ports]\<close> behind it is cleared for
  the next value. Once \<open>max\<close> values are counted that entry lies behind the array:
  \<open>None\<close> stands for this write past the caller's array, after which the test that
  leaves the loop would be reached.
\<close>

fun win_enum_loop :: "nat \<Rightarrow> serial_list list \<Rightarrow> (serial_list \<times> bool) list \<Rightarrow> serial_list list option" where
  "win_enum_loop max' list [] = Some list"
| "win_enum_loop max' list ((v, string_value) # vals) =
    (if \<not> length list < max' then None
     else if string_value then
       (let list = list @ [v]
        in if length list < max' then win_enum_loop max' list vals else None)
     else win_enum_loop max' list vals)"

definition sim_serial_os_devices_win :: "(serial_list \<times> bool) list \<Rightarrow> nat \<Rightarrow> serial_list list option" where
  "sim_serial_os_devices_win vals max' = win_enum_loop max' [] vals"

definition serial_name_compare :: "serial_list \<Rightarrow> serial_list \<Rightarrow> int" where
  "serial_name_compare a b = strcmp (name a) (name b)"

text \<open>The loop of \<^verbatim>\<open>sim_serial_devices\<close> over the open devices: a device whose name is
  in the list is skipped, the loop is left when the list is full, any other device is
  appended.\<close>

fun merge_open :: "nat \<Rightarrow> serial_list list \<Rightarrow> open_serial_device list \<Rightarrow> serial_list list" where
  "merge_open max' list [] = list"
| "merge_open max' list (d # ds) =
    (if list_ex (\<lambda>e. 0 = strcmp (open_name d) (name e)) list then merge_open max' list ds
     else if length list \<ge> max' then list
     else merge_open max'
            (list @ [\<lparr>name = strcpy (open_name d), desc = strcpy (open_desc d)\<rparr>]) ds)"

text \<open>\<^verbatim>\<open>sim_serial_devices\<close>; \<open>os_list\<close> is the list of the entries that
  \<^verbatim>\<open>sim_serial_os_devices\<close> stored, whose number it returned.\<close>

definition sim_serial_devices :: "serial_list list \<Rightarrow> open_list \<Rightarrow> nat \<Rightarrow> serial_list list" where
  "sim_serial_devices os_list st max' =
    (let list = os_list;
         list = merge_open max' list (open_devices st)
     in if length list \<noteq> 0 then qsort serial_name_compare list else list)"

subsection \<open>Translating a device name\<close>

definition sim_serial_getname :: "serial_list list \<Rightarrow> open_list \<Rightarrow> int \<Rightarrow> string option" where
  "sim_serial_getname os_list st number =
    (let list = sim_serial_devices os_list st SER_MAX_DEVICE;
         count = int (length list)
     in if count \<le> number then None else Some (strcpy (name (list ! nat number))))"

text \<open>The body of the loop of \<^verbatim>\<open>sim_serial_getname_bydesc\<close> for one entry: the
  lengths are compared, then every position.\<close>

definition desc_matches :: "string \<Rightarrow> serial_list \<Rightarrow> bool" where
  "desc_matches dsc e =
    (let j = strlen dsc;
         k = strlen (desc e)
     in if j \<noteq> k then False
        else fold (\<lambda>k found. if tolower (char_at (desc e) k) \<noteq> tolower (char_at dsc k) then False else found)
               [0..<j] True)"

fun getname_bydesc_loop :: "string \<Rightarrow> serial_list list \<Rightarrow> string option" where
  "getname_bydesc_loop dsc [] = None"
| "getname_bydesc_loop dsc (e # es) =
    (if desc_matches dsc e then Some (strcpy (name e)) else getname_bydesc_loop dsc es)"

definition sim_serial_getname_bydesc :: "serial_list list \<Rightarrow> open_list \<Rightarrow> string \<Rightarrow> string option" where
  "sim_serial_getname_bydesc os_list st dsc =
    getname_bydesc_loop dsc (sim_serial_devices os_list st SER_MAX_DEVICE)"

fun strncasecmp_loop :: "string \<Rightarrow> string \<Rightarrow> nat \<Rightarrow> nat \<Rightarrow> int" where
  "strncasecmp_loop string1 string2 i 0 = 0"
| "strncasecmp_loop string1 string2 i (Suc n) =
    (let s1 = char_at string1 i;
         s2 = char_at string2 i;
         s1 = (if islower s1 then toupper s1 else s1);
         s2 = (if islower s2 then toupper s2 else s2)
     in if (of_char s1 :: nat) < of_char s2 then -1
        else if (of_char s1 :: nat) > of_char s2 then 1
        else if s1 = CHR 0x00 then 0
        else strncasecmp_loop string1 string2 (i + 1) n)"

definition sim_serial_strncasecmp :: "string \<Rightarrow> string \<Rightarrow> nat \<Rightarrow> int" where
  "sim_serial_strncasecmp string1 string2 len = strncasecmp_loop string1 string2 0 len"

text \<open>The test of the loops of \<^verbatim>\<open>sim_serial_getname_byname\<close> and
  \<^verbatim>\<open>sim_serial_getdesc_byname\<close> for one entry.\<close>

definition name_matches :: "string \<Rightarrow> serial_list \<Rightarrow> bool" where
  "name_matches nam e =
    (let n = strlen nam
     in n = strlen (name e) \<and> sim_serial_strncasecmp nam (name e) n = 0)"

fun getname_byname_loop :: "string \<Rightarrow> serial_list list \<Rightarrow> string option" where
  "getname_byname_loop nam [] = None"
| "getname_byname_loop nam (e # es) =
    (if name_matches nam e then Some (strcpy (name e)) else getname_byname_loop nam es)"

definition sim_serial_getname_byname :: "serial_list list \<Rightarrow> open_list \<Rightarrow> string \<Rightarrow> string option" where
  "sim_serial_getname_byname os_list st nam =
    getname_byname_loop nam (sim_serial_devices os_list st SER_MAX_DEVICE)"

fun getdesc_byname_loop :: "string \<Rightarrow> serial_list list \<Rightarrow> string option" where
  "getdesc_byname_loop nam [] = None"
| "getdesc_byname_loop nam (e # es) =
    (if name_matches nam e then Some (strcpy (desc e)) else getdesc_byname_loop nam es)"

definition sim_serial_getdesc_byname :: "serial_list list \<Rightarrow> open_list \<Rightarrow> string \<Rightarrow> string option" where
  "sim_serial_getdesc_byname os_list st nam =
    getdesc_byname_loop nam (sim_serial_devices os_list st SER_MAX_DEVICE)"

text \<open>The test of \<^verbatim>\<open>sim_open_serial\<close> for a name of the form \<^verbatim>\<open>serX\<close>. The conjunction
  is evaluated from the left, so no character behind the terminator is read.\<close>

definition is_serX :: "string \<Rightarrow> bool" where
  "is_serX nam =
    (strlen nam \<le> 5
     \<and> tolower (char_at nam 0) = CHR ''s''
     \<and> tolower (char_at nam 1) = CHR ''e''
     \<and> tolower (char_at nam 2) = CHR ''r''
     \<and> isdigit (char_at nam 3)
     \<and> (isdigit (char_at nam 4) \<or> char_at nam 4 = CHR 0x00))"

text \<open>The translation at the start of \<^verbatim>\<open>sim_open_serial\<close>: \<open>None\<close> when the routine
  returns \<^verbatim>\<open>INVALID_HANDLE\<close> before it opens anything, else \<^verbatim>\<open>savname\<close> and
  \<^verbatim>\<open>savdesc\<close>, the latter \<open>None\<close> for the null pointer.\<close>

definition translate_name ::
    "serial_list list \<Rightarrow> open_list \<Rightarrow> string \<Rightarrow> (string \<times> string option) option" where
  "translate_name os_list st nam =
    (if is_serX nam then
       (let num = atoi (drop 3 nam)
        in case sim_serial_getname os_list st num of
             None \<Rightarrow> None
           | Some savname \<Rightarrow> Some (savname, sim_serial_getdesc_byname os_list st savname))
     else
       (case sim_serial_getname_bydesc os_list st nam of
          None \<Rightarrow>
            (case sim_serial_getname_byname os_list st nam of
               None \<Rightarrow> Some (nam, None)
             | Some savname \<Rightarrow> Some (savname, sim_serial_getdesc_byname os_list st savname))
        | Some savname \<Rightarrow> Some (savname, Some nam)))"

text \<open>\<^verbatim>\<open>sim_open_serial\<close>; \<open>sim_open_os_serial\<close> stands for the os_list's answer to the
  opening of a device name.\<close>

definition sim_open_serial ::
    "serial_list list \<Rightarrow> (string \<Rightarrow> int) \<Rightarrow> string \<Rightarrow> nat \<Rightarrow> open_list \<Rightarrow> int \<times> open_list" where
  "sim_open_serial os_list sim_open_os_serial nam lp st =
    (case translate_name os_list st nam of
       None \<Rightarrow> (INVALID_HANDLE, st)
     | Some (savname, savdesc) \<Rightarrow>
         (let prt = sim_open_os_serial savname
          in if prt \<noteq> INVALID_HANDLE
             then (prt, serial_add_to_open_list prt lp savname savdesc st)
             else (prt, st)))"

definition sim_close_serial :: "int \<Rightarrow> open_list \<Rightarrow> open_list" where
  "sim_close_serial prt st = serial_remove_from_open_list prt st"

text \<open>The name forms as the specification words them. The indexed form is \<^verbatim>\<open>ser\<close>, in
  either case, and one or two decimal digits, which give the index; two strings match
  when they have the same length and agree at every position under ASCII case
  folding.\<close>

definition indexed_form_spec :: "string \<Rightarrow> bool" where
  "indexed_form_spec s =
    ((length s = 4 \<or> length s = 5) \<and> map tolower (take 3 s) = ''ser'' \<and> list_all isdigit (drop 3 s))"

definition index_spec :: "string \<Rightarrow> int" where
  "index_spec s = foldl (\<lambda>i c. 10 * i + (int (of_char c) - 48)) 0 (drop 3 s)"

definition ci_equal_spec :: "string \<Rightarrow> string \<Rightarrow> bool" where
  "ci_equal_spec a b = (length a = length b \<and> map tolower a = map tolower b)"

text \<open>The entries that the merge has to append, as the code's comment words it (the open
  ports, duplicates removed): the copies of the open devices whose name is neither
  among the names \<open>seen\<close> nor the name of an earlier open device, in their order.\<close>

definition appended_spec :: "string list \<Rightarrow> open_serial_device list \<Rightarrow> serial_list list" where
  "appended_spec seen ds =
    map (\<lambda>i. \<lparr>name = cstr (open_name (ds ! i)), desc = cstr (open_desc (ds ! i))\<rparr>)
      (filter (\<lambda>i. cstr (open_name (ds ! i)) \<notin> set seen \<union> (\<lambda>d. cstr (open_name d)) ` set (take i ds))
         [0..<length ds])"

subsection \<open>Configuring a serial port\<close>

text \<open>
  The status codes that \<^verbatim>\<open>sim_config_serial\<close> returns, and \<^verbatim>\<open>SERCONFIG\<close>. The host's
  attribute structures keep the fields the routine assigns: a character size, parity
  and stop bit setting stands for the bits of \<^verbatim>\<open>c_cflag\<close> that hold it, and a rate
  stands for its \<^verbatim>\<open>speed_t\<close> code.
\<close>

datatype t_stat = SCPE_OK | SCPE_ARG | SCPE_IOERR | SCPE_IERR

record SERCONFIG =
  baudrate :: nat
  charsize :: nat
  parity :: char
  stopbits :: nat

record termios =
  c_ispeed :: nat
  c_ospeed :: nat
  CSIZE :: nat
  PARENB :: bool
  PARODD :: bool
  CSTOPB :: bool

definition baud_map :: "(nat \<times> nat) list" where
  "baud_map =
    [(50, 50), (75, 75), (110, 110), (134, 134), (150, 150), (200, 200), (300, 300),
     (600, 600), (1200, 1200), (1800, 1800), (2400, 2400), (4800, 4800), (9600, 9600),
     (19200, 19200), (38400, 38400), (57600, 57600), (115200, 115200)]"

definition baud_count :: nat where
  "baud_count = length baud_map"

definition charsize_map :: "nat list" where
  "charsize_map = [5, 6, 7, 8]"

text \<open>The loop that assigns the baud rate; it returns the index at which it stops.\<close>

function assign_baud :: "nat \<Rightarrow> nat \<Rightarrow> termios \<Rightarrow> nat \<times> termios" where
  "assign_baud rate i tio =
    (if i < baud_count then
       (if rate = fst (baud_map ! i)
        then (i, tio\<lparr>c_ispeed := snd (baud_map ! i), c_ospeed := snd (baud_map ! i)\<rparr>)
        else assign_baud rate (i + 1) tio)
     else (i, tio))"
  by pat_completeness auto

termination assign_baud
  by (relation "measure (\<lambda>(rate, i, tio). baud_count - i)") auto

declare assign_baud.simps [simp del]

text \<open>\<^verbatim>\<open>sim_config_serial\<close> of the termios backend. \<open>tcgetattr\<close> is the attribute
  structure the host delivers, \<open>None\<close> when the call fails; \<open>tcsetattr\<close> gives the
  host's return value for a structure, which is 0 on success.\<close>

definition sim_config_serial_unix ::
    "termios option \<Rightarrow> (termios \<Rightarrow> int) \<Rightarrow> SERCONFIG \<Rightarrow> t_stat" where
  "sim_config_serial_unix tcgetattr tcsetattr config =
    (case tcgetattr of
       None \<Rightarrow> SCPE_IOERR
     | Some tio \<Rightarrow>
        (let (i, tio) = assign_baud (baudrate config) 0 tio
         in if i = baud_count then SCPE_ARG
            else if charsize config \<ge> 5 \<and> charsize config \<le> 8 then
              (let tio = tio\<lparr>CSIZE := charsize_map ! (charsize config - 5)\<rparr>
               in if parity config \<notin> {CHR ''E'', CHR ''N'', CHR ''O''} then SCPE_ARG
                  else
                    (let tio =
                       (if parity config = CHR ''E'' then tio\<lparr>PARODD := False, PARENB := True\<rparr>
                        else if parity config = CHR ''N'' then tio\<lparr>PARENB := False\<rparr>
                        else tio\<lparr>PARODD := True, PARENB := True\<rparr>)
                     in if stopbits config \<noteq> 1 \<and> stopbits config \<noteq> 2 then SCPE_ARG
                        else
                          (let tio =
                             (if stopbits config = 1 then tio\<lparr>CSTOPB := False\<rparr>
                              else tio\<lparr>CSTOPB := True\<rparr>)
                           in if tcsetattr tio \<noteq> 0 then SCPE_IERR else SCPE_OK)))
            else SCPE_ARG))"

text \<open>The Windows backend: the device control block, the parity codes and stop bit
  codes of the Windows headers, and the error code that \<^verbatim>\<open>SetCommState\<close> gives for a
  configuration it rejects.\<close>

record DCB =
  BaudRate :: nat
  ByteSize :: nat
  Parity :: nat
  StopBits :: nat

definition parity_map :: "(char \<times> nat) list" where
  "parity_map = [(CHR ''E'', 2), (CHR ''M'', 3), (CHR ''N'', 0), (CHR ''O'', 1), (CHR ''S'', 4)]"

definition parity_count :: nat where
  "parity_count = length parity_map"

definition ERROR_INVALID_PARAMETER :: nat where
  "ERROR_INVALID_PARAMETER = 87"

function assign_parity :: "char \<Rightarrow> nat \<Rightarrow> DCB \<Rightarrow> nat \<times> DCB" where
  "assign_parity par i dcb =
    (if i < parity_count then
       (if par = fst (parity_map ! i)
        then (i, dcb\<lparr>Parity := snd (parity_map ! i)\<rparr>)
        else assign_parity par (i + 1) dcb)
     else (i, dcb))"
  by pat_completeness auto

termination assign_parity
  by (relation "measure (\<lambda>(par, i, dcb). parity_count - i)") auto

declare assign_parity.simps [simp del]

text \<open>\<^verbatim>\<open>sim_config_serial\<close> of the Windows backend. \<open>GetCommState\<close> is the block the
  host delivers, \<open>None\<close> when the call fails; \<open>SetCommState\<close> gives \<open>None\<close> on success
  and the value of \<^verbatim>\<open>GetLastError\<close> otherwise.\<close>

definition sim_config_serial_win ::
    "DCB option \<Rightarrow> (DCB \<Rightarrow> nat option) \<Rightarrow> SERCONFIG \<Rightarrow> t_stat" where
  "sim_config_serial_win GetCommState SetCommState config =
    (case GetCommState of
       None \<Rightarrow> SCPE_IOERR
     | Some dcb \<Rightarrow>
        (let dcb = dcb\<lparr>BaudRate := baudrate config\<rparr>
         in if charsize config \<ge> 5 \<and> charsize config \<le> 8 then
              (let dcb = dcb\<lparr>ByteSize := charsize config\<rparr>;
                   (i, dcb) = assign_parity (parity config) 0 dcb
               in if i = parity_count then SCPE_ARG
                  else if stopbits config \<noteq> 1 \<and> stopbits config \<noteq> 2 \<and> stopbits config \<noteq> 0
                  then SCPE_ARG
                  else
                    (let dcb =
                       (if stopbits config = 1 then dcb\<lparr>StopBits := 0\<rparr>
                        else if stopbits config = 2 then dcb\<lparr>StopBits := 2\<rparr>
                        else dcb\<lparr>StopBits := 1\<rparr>)
                     in case SetCommState dcb of
                          None \<Rightarrow> SCPE_OK
                        | Some error \<Rightarrow>
                            if error = ERROR_INVALID_PARAMETER then SCPE_ARG else SCPE_IOERR))
            else SCPE_ARG))"

subsection \<open>The unescaping loop implements the decoding\<close>

lemma memchr_Some:
  "memchr buf s c n = Some p \<Longrightarrow> s \<le> p \<and> p < s + n \<and> buf ! p = c \<and> (\<forall>k. s \<le> k \<and> k < p \<longrightarrow> buf ! k \<noteq> c)"
proof (induction buf s c n rule: memchr.induct)
  case (1 buf s c)
  then show ?case by simp
next
  case (2 buf s c n)
  show ?case
  proof (cases "buf ! s = c")
    case True
    with 2 show ?thesis by auto
  next
    case False
    with 2 have *: "Suc s \<le> p \<and> p < Suc s + n \<and> buf ! p = c \<and> (\<forall>k. Suc s \<le> k \<and> k < p \<longrightarrow> buf ! k \<noteq> c)"
      by simp
    have "buf ! k \<noteq> c" if "s \<le> k" "k < p" for k
      using that * False by (cases "k = s") auto
    with * show ?thesis by auto
  qed
qed

lemma memchr_None:
  "memchr buf s c n = None \<Longrightarrow> s \<le> k \<Longrightarrow> k < s + n \<Longrightarrow> buf ! k \<noteq> c"
proof (induction buf s c n rule: memchr.induct)
  case (1 buf s c)
  then show ?case by simp
next
  case (2 buf s c n)
  then show ?case by (cases "k = s") (auto split: if_splits)
qed

lemma memchr_None_split:
  assumes "memchr (done @ rest @ junk) (length done) c n = None" "n \<le> length rest"
  shows "c \<notin> set (take n rest)"
proof
  assume "c \<in> set (take n rest)"
  then obtain k where k: "k < length (take n rest)" "take n rest ! k = c"
    by (auto simp: in_set_conv_nth)
  then have "k < n" "k < length rest" by auto
  then have "(done @ rest @ junk) ! (length done + k) = c"
    using k by (simp add: nth_append)
  moreover have "(done @ rest @ junk) ! (length done + k) \<noteq> c"
    using memchr_None [OF assms(1), of "length done + k"] \<open>k < n\<close> by simp
  ultimately show False by simp
qed

lemma memchr_Some_split:
  assumes "memchr (done @ rest @ junk) (length done) c n = Some bptr" "Suc n = length rest"
  shows "\<exists>pre y more. rest = pre @ c # y # more \<and> c \<notin> set pre \<and> bptr = length done + length pre"
proof -
  from memchr_Some [OF assms(1)]
  have b: "length done \<le> bptr" "bptr < length done + n" "(done @ rest @ junk) ! bptr = c"
    and nc: "\<And>k. length done \<le> k \<Longrightarrow> k < bptr \<Longrightarrow> (done @ rest @ junk) ! k \<noteq> c"
    by auto
  define p where "p = bptr - length done"
  have p: "bptr = length done + p" "Suc p < length rest"
    using b assms(2) by (auto simp: p_def)
  have rp: "rest ! p = c"
    using b(3) p by (simp add: nth_append)
  have "rest = take p rest @ rest ! p # rest ! Suc p # drop (Suc (Suc p)) rest"
    using p(2) by (metis Cons_nth_drop_Suc Suc_lessD append_take_drop_id)
  moreover have "c \<notin> set (take p rest)"
  proof
    assume "c \<in> set (take p rest)"
    then obtain k where k: "k < p" "rest ! k = c"
      using p(2) by (auto simp: in_set_conv_nth)
    then have "(done @ rest @ junk) ! (length done + k) = c"
      using p(2) by (simp add: nth_append)
    with nc [of "length done + k"] k p show False by simp
  qed
  moreover have "length (take p rest) = p" using p(2) by simp
  ultimately show ?thesis using rp p(1) by metis
qed

lemma decodeA_spec_skip:
  "0xFF \<notin> set pre \<Longrightarrow> decodeA_spec (pre @ r) = map (\<lambda>x. (x, False)) pre @ decodeA_spec r"
proof (induction pre)
  case Nil
  then show ?case by simp
next
  case (Cons a pre)
  then show ?case by (cases "pre @ r") auto
qed

lemma decodeA_spec_plain:
  assumes "0xFF \<notin> set (butlast xs)"
  shows "decodeA_spec xs = map (\<lambda>x. (x, False)) xs"
proof (cases xs rule: rev_cases)
  case Nil
  then show ?thesis by simp
next
  case (snoc ys y)
  with assms decodeA_spec_skip [of ys "[y]"] show ?thesis by simp
qed

lemma mark_breaks_False [simp]: "mark_breaks p (map (\<lambda>x. False) xs) brk = brk"
  by (induction xs arbitrary: p) auto

lemma mark_breaks_append:
  "mark_breaks p (fs @ gs) brk = mark_breaks (p + length fs) gs (mark_breaks p fs brk)"
  by (induction fs arbitrary: p brk) auto

lemma unescape_decode:
  "\<exists>buffer' junk'.
     unescape (done @ rest @ junk) brk (length done) (int (length rest) - 1) (int (length done + length rest)) =
       (buffer', mark_breaks (length done) (map snd (decodeA_spec rest)) brk,
        int (length done + length (decodeA_spec rest))) \<and>
     buffer' = done @ map fst (decodeA_spec rest) @ junk' \<and>
     length buffer' = length (done @ rest @ junk)"
proof (induction "length rest" arbitrary: "done" rest junk brk rule: less_induct)
  case less
  let ?buffer = "done @ rest @ junk"
  show ?case
  proof (cases "length rest \<le> 1")
    case True
    then have "decodeA_spec rest = map (\<lambda>x. (x, False)) rest"
      by (cases rest rule: decodeA_spec.cases) auto
    with True show ?thesis
      by (subst unescape.simps) (simp add: comp_def)
  next
    case False
    then have rem: "int (length rest) - 1 > 0" by simp
    define n where "n = length rest - 1"
    have n: "Suc n = length rest" "nat (int (length rest) - 1) = n"
      using False by (auto simp: n_def)
    show ?thesis
    proof (cases "memchr ?buffer (length done) 0xFF n")
      case None
      then have "0xFF \<notin> set (take n rest)"
        using memchr_None_split [of "done" rest junk "0xFF" n] n by simp
      then have "0xFF \<notin> set (butlast rest)"
        using n by (simp add: butlast_conv_take n_def)
      then have "decodeA_spec rest = map (\<lambda>x. (x, False)) rest"
        by (rule decodeA_spec_plain)
      with None rem n show ?thesis
        by (subst unescape.simps) (simp add: comp_def)
    next
      case (Some bptr)
      from memchr_Some_split [OF Some n(1)]
      obtain pre y more where rest: "rest = pre @ 0xFF # y # more"
        and pre: "0xFF \<notin> set pre" and bptr: "bptr = length done + length pre"
        by blast
      let ?done' = "done @ pre"
      have rem': "int (length rest) - 1 - (int bptr - int (length done)) - 1 = int (length more)"
        using rest bptr by simp
      have y: "?buffer ! (bptr + 1) = y"
        using rest bptr by (simp add: nth_append)
      have lenrest: "length rest = length pre + length more + 2"
        using rest by simp
      have skip: "decodeA_spec rest = map (\<lambda>x. (x, False)) pre @ decodeA_spec (0xFF # y # more)"
        using decodeA_spec_skip [OF pre] rest by simp
      consider (esc) "y = 0xFF" | (nul) "y = 0" "more \<noteq> []" | (other) "y \<noteq> 0xFF" "y = 0 \<longrightarrow> more = []"
        by blast
      then show ?thesis
      proof cases
        case esc
        have mm: "memmove ?buffer (bptr + 1) (bptr + 2) (length more) =
            (?done' @ [0xFF]) @ more @ drop (length more) (0xFF # more @ junk)"
          using rest bptr esc by (simp add: memmove_def)
        have len: "length more < length rest" using rest by simp
        from less [OF len, of "?done' @ [0xFF]" "drop (length more) (0xFF # more @ junk)" brk]
        obtain buffer' junk' where
          ih: "unescape ((?done' @ [0xFF]) @ more @ drop (length more) (0xFF # more @ junk)) brk
                 (length (?done' @ [0xFF])) (int (length more) - 1) (int (length (?done' @ [0xFF]) + length more)) =
               (buffer', mark_breaks (length (?done' @ [0xFF])) (map snd (decodeA_spec more)) brk,
                int (length (?done' @ [0xFF]) + length (decodeA_spec more)))"
            "buffer' = (?done' @ [0xFF]) @ map fst (decodeA_spec more) @ junk'"
            "length buffer' = length ((?done' @ [0xFF]) @ more @ drop (length more) (0xFF # more @ junk))"
          by blast
        have dec: "decodeA_spec rest = map (\<lambda>x. (x, False)) pre @ (0xFF, False) # decodeA_spec more"
          using skip esc by simp
        have rc: "int (length done + length rest) - 1 = int (length (?done' @ [0xFF]) + length more)"
          using rest by simp
        have step: "unescape ?buffer brk (length done) (int (length rest) - 1) (int (length done + length rest)) =
            unescape ((?done' @ [0xFF]) @ more @ drop (length more) (0xFF # more @ junk)) brk
                 (length (?done' @ [0xFF])) (int (length more) - 1) (int (length (?done' @ [0xFF]) + length more))"
          apply (subst unescape.simps)
          apply (simp only: rem if_True n(2) Some option.case Let_def rem' y esc nat_int mm rc)
          apply (simp add: bptr)
          done
        show ?thesis
          unfolding step ih(1) using ih(2,3) lenrest
          by (simp add: dec mark_breaks_append comp_def)
      next
        case nul
        then obtain c more2 where more: "more = c # more2" by (cases more) auto
        have mm: "memmove ?buffer bptr (bptr + 2) (length more) =
            (?done' @ [c]) @ more2 @ drop (length more) (0xFF # 0 # more @ junk)"
          using rest bptr nul more by (simp add: memmove_def)
        have len: "length more2 < length rest" using rest more by simp
        let ?brk' = "if c = 0 then brk[bptr := 1] else brk"
        from less [OF len, of "?done' @ [c]" "drop (length more) (0xFF # 0 # more @ junk)" ?brk']
        obtain buffer' junk' where
          ih: "unescape ((?done' @ [c]) @ more2 @ drop (length more) (0xFF # 0 # more @ junk)) ?brk'
                 (length (?done' @ [c])) (int (length more2) - 1) (int (length (?done' @ [c]) + length more2)) =
               (buffer', mark_breaks (length (?done' @ [c])) (map snd (decodeA_spec more2)) ?brk',
                int (length (?done' @ [c]) + length (decodeA_spec more2)))"
            "buffer' = (?done' @ [c]) @ map fst (decodeA_spec more2) @ junk'"
            "length buffer' = length ((?done' @ [c]) @ more2 @ drop (length more) (0xFF # 0 # more @ junk))"
          by blast
        have dec: "decodeA_spec rest = map (\<lambda>x. (x, False)) pre @ (c, c = 0) # decodeA_spec more2"
          using skip nul more by simp
        have rc: "int (length done + length rest) - 2 = int (length (?done' @ [c]) + length more2)"
          "int (length more) - 2 = int (length more2) - 1"
          using rest more by simp_all
        have yne: "y \<noteq> 0xFF" using nul by simp
        have cb: "((?done' @ [c]) @ more2 @ drop (length more) (0xFF # 0 # more @ junk)) ! bptr = c"
          using bptr by (simp add: nth_append)
        have m0: "int (length more) > 0" using more by simp
        have step: "unescape ?buffer brk (length done) (int (length rest) - 1) (int (length done + length rest)) =
            unescape ((?done' @ [c]) @ more2 @ drop (length more) (0xFF # 0 # more @ junk)) ?brk'
                 (length (?done' @ [c])) (int (length more2) - 1) (int (length (?done' @ [c]) + length more2))"
          apply (subst unescape.simps)
          apply (simp only: rem if_True n(2) Some option.case Let_def rem' y yne if_False nat_int mm rc m0 nul(1) simp_thms cb)
          apply (simp add: bptr)
          done
        show ?thesis
          unfolding step ih(1) using ih(2,3) lenrest more
          by (simp add: dec mark_breaks_append comp_def bptr)
      next
        case other
        have len: "length (y # more) < length rest" using rest by simp
        from less [OF len, of "?done' @ [0xFF]" junk brk]
        obtain buffer' junk' where
          ih: "unescape ((?done' @ [0xFF]) @ (y # more) @ junk) brk
                 (length (?done' @ [0xFF])) (int (length (y # more)) - 1) (int (length (?done' @ [0xFF]) + length (y # more))) =
               (buffer', mark_breaks (length (?done' @ [0xFF])) (map snd (decodeA_spec (y # more))) brk,
                int (length (?done' @ [0xFF]) + length (decodeA_spec (y # more))))"
            "buffer' = (?done' @ [0xFF]) @ map fst (decodeA_spec (y # more)) @ junk'"
            "length buffer' = length ((?done' @ [0xFF]) @ (y # more) @ junk)"
          by blast
        have dec: "decodeA_spec rest = map (\<lambda>x. (x, False)) pre @ (0xFF, False) # decodeA_spec (y # more)"
          using skip other by (cases more) auto
        have c2: "\<not> (int (length more) > 0 \<and> y = 0)" using other by auto
        have buf: "?buffer = (?done' @ [0xFF]) @ (y # more) @ junk" using rest by simp
        have rc: "int (length done + length rest) = int (length (?done' @ [0xFF]) + length (y # more))"
          "int (length more) = int (length (y # more)) - 1"
          using rest by simp_all
        have step: "unescape ?buffer brk (length done) (int (length rest) - 1) (int (length done + length rest)) =
            unescape ((?done' @ [0xFF]) @ (y # more) @ junk) brk
                 (length (?done' @ [0xFF])) (int (length (y # more)) - 1) (int (length (?done' @ [0xFF]) + length (y # more)))"
          apply (subst unescape.simps)
          apply (simp only: rem if_True n(2) Some option.case Let_def rem' y other(1) if_False c2)
          apply (simp only: buf [symmetric] rc [symmetric])
          apply (simp add: bptr)
          done
        show ?thesis
          unfolding step ih(1) using ih(2,3) lenrest
          by (simp add: dec mark_breaks_append comp_def)
      qed
    qed
  qed
qed

lemma length_mark_breaks [simp]: "length (mark_breaks p fs brk) = length brk"
  by (induction fs arbitrary: p brk) auto

lemma mark_breaks_nth:
  "i < length brk \<Longrightarrow>
   mark_breaks p fs brk ! i = (if p \<le> i \<and> i < p + length fs \<and> fs ! (i - p) then 1 else brk ! i)"
proof (induction fs arbitrary: p brk)
  case Nil
  then show ?case by auto
next
  case (Cons f fs)
  let ?brk = "if f then brk[p := 1] else brk"
  show ?case
  proof (cases "i = p")
    case True
    with Cons show ?thesis by simp
  next
    case False
    have nth: "(f # fs) ! (i - p) = fs ! (i - Suc p)" if "p \<le> i"
      using that False by (simp add: nth_Cons')
    have "mark_breaks p (f # fs) brk ! i = mark_breaks (Suc p) fs ?brk ! i"
      by simp
    also have "\<dots> = (if Suc p \<le> i \<and> i < Suc p + length fs \<and> fs ! (i - Suc p) then 1 else ?brk ! i)"
      using Cons.prems by (intro Cons.IH) simp
    also have "?brk ! i = brk ! i"
      using False by simp
    finally show ?thesis
      using False nth by (cases "p \<le> i") auto
  qed
qed

lemma mark_breaks_zeros:
  assumes "set brk \<subseteq> {0}" "length fs \<le> length brk"
  shows "map (\<lambda>f. f \<noteq> 0) (take (length fs) (mark_breaks 0 fs brk)) = fs"
proof (rule nth_equalityI)
  show "length (map (\<lambda>f. f \<noteq> 0) (take (length fs) (mark_breaks 0 fs brk))) = length fs"
    using assms by simp
next
  fix i assume "i < length (map (\<lambda>f. f \<noteq> 0) (take (length fs) (mark_breaks 0 fs brk)))"
  then have i: "i < length fs" "i < length brk" using assms by auto
  then have "brk ! i = 0" using assms(1) by (metis nth_mem singletonD subsetD)
  then show "map (\<lambda>f. f \<noteq> 0) (take (length fs) (mark_breaks 0 fs brk)) ! i = fs ! i"
    using i by (simp add: mark_breaks_nth)
qed

lemma sim_read_serial_unix_result:
  assumes "length xs \<le> length buffer"
  shows "\<exists>junk. sim_read_serial_unix (Read_bytes xs) buffer brk =
      (int (length (decodeA_spec xs)), map fst (decodeA_spec xs) @ junk,
       mark_breaks 0 (map snd (decodeA_spec xs)) brk) \<and>
      length (map fst (decodeA_spec xs) @ junk) = length buffer"
proof -
  from unescape_decode [of "[]" xs "drop (length xs) buffer" brk]
  obtain buffer' junk' where
    u: "unescape (xs @ drop (length xs) buffer) brk 0 (int (length xs) - 1) (int (length xs)) =
          (buffer', mark_breaks 0 (map snd (decodeA_spec xs)) brk, int (length (decodeA_spec xs)))"
       "buffer' = map fst (decodeA_spec xs) @ junk'"
       "length buffer' = length (xs @ drop (length xs) buffer)"
    by auto
  then show ?thesis using assms
    by (auto simp: sim_read_serial_unix_def)
qed

lemma length_decodeA_spec: "length (decodeA_spec xs) \<le> length xs"
  by (induction xs rule: decodeA_spec.induct) (auto split: list.splits)

lemma received_unix:
  assumes "length xs \<le> length buffer" "length xs \<le> length brk" "set brk \<subseteq> {0}"
  shows "received (sim_read_serial_unix (Read_bytes xs) buffer brk) =
    (map fst (decodeA_spec xs), map snd (decodeA_spec xs))"
proof -
  from sim_read_serial_unix_result [OF assms(1), of brk]
  obtain junk where r: "sim_read_serial_unix (Read_bytes xs) buffer brk =
      (int (length (decodeA_spec xs)), map fst (decodeA_spec xs) @ junk,
       mark_breaks 0 (map snd (decodeA_spec xs)) brk)"
    by blast
  have "length (map snd (decodeA_spec xs)) \<le> length brk"
    using length_decodeA_spec [of xs] assms(2) by simp
  from mark_breaks_zeros [OF assms(3) this] show ?thesis
    by (simp add: r received_def)
qed

lemma decodeA_spec_ends_ESC_NUL:
  "\<exists>ds. decodeA_spec (xs @ [0xFF, 0]) = ds @ [(0xFF, False), (0, False)]"
proof (induction xs rule: decodeA_spec.induct)
  case (1 a b rest)
  consider (esc) "a = 0xFF" "b = 0xFF"
    | (nul) "a = 0xFF" "b = 0" "rest = []"
    | (pay) c rest' where "a = 0xFF" "b = 0" "rest = c # rest'"
    | (other) "\<not> (a = 0xFF \<and> b = 0xFF)" "\<not> (a = 0xFF \<and> b = 0)"
    by (cases rest) auto
  then show ?case
  proof cases
    case esc
    with 1(1) obtain ds where "decodeA_spec (rest @ [0xFF, 0]) = ds @ [(0xFF, False), (0, False)]"
      by blast
    with esc have "decodeA_spec ((a # b # rest) @ [0xFF, 0]) = ((0xFF, False) # ds) @ [(0xFF, False), (0, False)]"
      by simp
    then show ?thesis by blast
  next
    case nul
    then have "decodeA_spec ((a # b # rest) @ [0xFF, 0]) = [] @ [(0xFF, False), (0, False)]"
      by simp
    then show ?thesis by blast
  next
    case pay
    with 1(2) obtain ds where "decodeA_spec (rest' @ [0xFF, 0]) = ds @ [(0xFF, False), (0, False)]"
      by auto
    with pay have "decodeA_spec ((a # b # rest) @ [0xFF, 0]) = ((c, c = 0) # ds) @ [(0xFF, False), (0, False)]"
      by simp
    then show ?thesis by blast
  next
    case other
    with 1(3) obtain ds where "decodeA_spec ((b # rest) @ [0xFF, 0]) = ds @ [(0xFF, False), (0, False)]"
      by blast
    with other have "decodeA_spec ((a # b # rest) @ [0xFF, 0]) = ((a, False) # ds) @ [(0xFF, False), (0, False)]"
      by auto
    then show ?thesis by blast
  qed
next
  case (2 a)
  have "decodeA_spec ([a] @ [0xFF, 0]) = (if a = 0xFF then [] else [(a, False)]) @ [(0xFF, False), (0, False)]"
    by simp
  then show ?case by blast
next
  case 3
  have "decodeA_spec ([] @ [0xFF, 0]) = [] @ [(0xFF, False), (0, False)]"
    by simp
  then show ?case by blast
qed

lemma decodeA_spec_ends_ESC:
  "\<exists>ds. decodeA_spec (xs @ [0xFF]) = ds @ [(0xFF, False)]"
proof (induction xs rule: decodeA_spec.induct)
  case (1 a b rest)
  consider (esc) "a = 0xFF" "b = 0xFF"
    | (nul) "a = 0xFF" "b = 0" "rest = []"
    | (pay) c rest' where "a = 0xFF" "b = 0" "rest = c # rest'"
    | (other) "\<not> (a = 0xFF \<and> b = 0xFF)" "\<not> (a = 0xFF \<and> b = 0)"
    by (cases rest) auto
  then show ?case
  proof cases
    case esc
    with 1(1) obtain ds where "decodeA_spec (rest @ [0xFF]) = ds @ [(0xFF, False)]"
      by blast
    with esc have "decodeA_spec ((a # b # rest) @ [0xFF]) = ((0xFF, False) # ds) @ [(0xFF, False)]"
      by simp
    then show ?thesis by blast
  next
    case nul
    then have "decodeA_spec ((a # b # rest) @ [0xFF]) = [] @ [(0xFF, False)]"
      by simp
    then show ?thesis by blast
  next
    case pay
    with 1(2) obtain ds where "decodeA_spec (rest' @ [0xFF]) = ds @ [(0xFF, False)]"
      by auto
    with pay have "decodeA_spec ((a # b # rest) @ [0xFF]) = ((c, c = 0) # ds) @ [(0xFF, False)]"
      by simp
    then show ?thesis by blast
  next
    case other
    with 1(3) obtain ds where "decodeA_spec ((b # rest) @ [0xFF]) = ds @ [(0xFF, False)]"
      by blast
    with other have "decodeA_spec ((a # b # rest) @ [0xFF]) = ((a, False) # ds) @ [(0xFF, False)]"
      by auto
    then show ?thesis by blast
  qed
next
  case (2 a)
  have "decodeA_spec ([a] @ [0xFF]) = (if a = 0xFF then [] else [(a, False)]) @ [(0xFF, False)]"
    by simp
  then show ?case by blast
next
  case 3
  have "decodeA_spec ([] @ [0xFF]) = [] @ [(0xFF, False)]"
    by simp
  then show ?case by blast
qed

lemma memchr_first:
  "memchr (pre @ xs @ junk) (length pre) c (length xs) =
    (if c \<in> set xs then Some (length pre + length (takeWhile (\<lambda>b. b \<noteq> c) xs)) else None)"
proof (induction xs arbitrary: pre)
  case Nil
  then show ?case by simp
next
  case (Cons x xs)
  from Cons [of "pre @ [x]"] show ?case by (simp add: nth_append)
qed

lemma memchr_first_NUL:
  "memchr (xs @ junk) 0 c (length xs) =
    (if c \<in> set xs then Some (length (takeWhile (\<lambda>b. b \<noteq> c) xs)) else None)"
  using memchr_first [of "[]" xs junk c] by simp

lemma takeWhile_first:
  "c \<in> set xs \<Longrightarrow>
    length (takeWhile (\<lambda>b. b \<noteq> c) xs) < length xs \<and> xs ! length (takeWhile (\<lambda>b. b \<noteq> c) xs) = c"
  by (induction xs) auto

lemma break_position_less: "xs \<noteq> [] \<Longrightarrow> break_position xs < length xs"
  using takeWhile_first [of 0 xs] by (simp add: break_position_def)

lemma sim_read_serial_win_result:
  "sim_read_serial_win (Some commerrors) (Some xs) buffer brk =
    (int (length xs), xs @ drop (length xs) buffer,
     if and commerrors CE_BREAK \<noteq> 0 then brk[break_position xs := 1] else brk)"
  by (simp add: sim_read_serial_win_def memchr_first_NUL break_position_def Let_def)

subsection \<open>The list of open serial devices\<close>

lemma length_shift_down [simp]: "length (shift_down devices j count) = length devices"
  by (induction devices j count rule: shift_down.induct)
     (subst shift_down.simps, simp)



lemma unregister_spec_absent:
  "h \<notin> port ` set ds \<Longrightarrow> unregister_spec h ds = ds"
  by (induction ds) auto









subsection \<open>Strings, matching and the device list\<close>

lemma of_char_toupper:
  "(of_char (toupper c) :: nat) =
    (if 97 \<le> (of_char c :: nat) \<and> (of_char c :: nat) \<le> 122 then of_char c - 32 else of_char c)"
proof -
  have "(of_char c :: nat) < 256" by simp
  then have "(of_char c :: nat) - 32 < 256" by (rule less_imp_diff_less)
  then have "((of_char c :: nat) - 32) mod 256 = of_char c - 32" by (rule mod_less)
  then show ?thesis by (simp add: toupper_def islower_def)
qed

lemma of_char_tolower:
  "(of_char (tolower c) :: nat) =
    (if 65 \<le> (of_char c :: nat) \<and> (of_char c :: nat) \<le> 90 then of_char c + 32 else of_char c)"
proof -
  have "(of_char c :: nat) + 32 < 256" if "(of_char c :: nat) \<le> 90"
    using that by simp
  then show ?thesis by (simp add: tolower_def isupper_def)
qed

lemma char_eq_iff_of_char: "a = b \<longleftrightarrow> (of_char a :: nat) = of_char b"
  by simp

lemma toupper_eq_iff: "toupper a = toupper b \<longleftrightarrow> tolower a = tolower b"
proof -
  define n m where "n = (of_char a :: nat)" and "m = (of_char b :: nat)"
  have "toupper a = toupper b \<longleftrightarrow> (of_char (toupper a) :: nat) = of_char (toupper b)"
    by simp
  also have "\<dots> \<longleftrightarrow> (if 97 \<le> n \<and> n \<le> 122 then n - 32 else n) = (if 97 \<le> m \<and> m \<le> 122 then m - 32 else m)"
    by (simp only: of_char_toupper n_def m_def)
  also have "\<dots> \<longleftrightarrow> (if 65 \<le> n \<and> n \<le> 90 then n + 32 else n) = (if 65 \<le> m \<and> m \<le> 90 then m + 32 else m)"
    by (auto split: if_splits)
  also have "\<dots> \<longleftrightarrow> (of_char (tolower a) :: nat) = of_char (tolower b)"
    by (simp only: of_char_tolower n_def m_def)
  also have "\<dots> \<longleftrightarrow> tolower a = tolower b"
    by simp
  finally show ?thesis .
qed

lemma toupper_NUL: "toupper c = CHR 0x00 \<longleftrightarrow> c = CHR 0x00"
proof -
  have "toupper c = CHR 0x00 \<longleftrightarrow> (of_char (toupper c) :: nat) = of_char (CHR 0x00)"
    by (simp only: of_char_eq_iff)
  also have "\<dots> \<longleftrightarrow> (of_char c :: nat) = of_char (CHR 0x00)"
    unfolding of_char_toupper by auto
  also have "\<dots> \<longleftrightarrow> c = CHR 0x00"
    by (simp only: of_char_eq_iff)
  finally show ?thesis .
qed

lemma islower_toupper: "(if islower c then toupper c else c) = toupper c"
  by (simp add: toupper_def)

lemma char_at_cstr: "k < strlen s \<Longrightarrow> char_at s k = cstr s ! k \<and> char_at s k \<noteq> CHR 0x00"
proof -
  assume k: "k < strlen s"
  then have "k < length (takeWhile (\<lambda>c. c \<noteq> CHR 0x00) s)"
    by (simp add: strlen_def cstr_def)
  then have "takeWhile (\<lambda>c. c \<noteq> CHR 0x00) s ! k = s ! k" "k < length s"
      "takeWhile (\<lambda>c. c \<noteq> CHR 0x00) s ! k \<in> set (takeWhile (\<lambda>c. c \<noteq> CHR 0x00) s)"
    using takeWhile_nth length_takeWhile_le [of "\<lambda>c. c \<noteq> CHR 0x00" s] by (auto intro: nth_mem)
  then show ?thesis
    by (auto simp: char_at_def cstr_def dest: set_takeWhileD)
qed

lemma char_at_nonzero: "k < strlen s \<Longrightarrow> char_at s k \<noteq> CHR 0x00"
  using char_at_cstr by blast

lemma fold_found:
  "fold (\<lambda>k found. if P k then False else found) ks b \<longleftrightarrow> b \<and> (\<forall>k\<in>set ks. \<not> P k)"
  by (induction ks arbitrary: b) auto

lemma map_eq_iff_nth:
  "length a = length b \<Longrightarrow> map f a = map f b \<longleftrightarrow> (\<forall>k<length a. f (a ! k) = f (b ! k))"
  by (auto simp: list_eq_iff_nth_eq)

lemma desc_matches_iff: "desc_matches dsc e \<longleftrightarrow> ci_equal_spec (cstr dsc) (cstr (desc e))"
proof (cases "strlen dsc = strlen (desc e)")
  case False
  then show ?thesis by (auto simp: desc_matches_def ci_equal_spec_def strlen_def)
next
  case True
  then have len: "length (cstr dsc) = length (cstr (desc e))" by (simp add: strlen_def)
  have "desc_matches dsc e \<longleftrightarrow>
      (\<forall>k. k < strlen dsc \<longrightarrow> tolower (char_at (desc e) k) = tolower (char_at dsc k))"
    using True by (auto simp: desc_matches_def fold_found)
  also have "\<dots> \<longleftrightarrow> (\<forall>k<length (cstr dsc). tolower (cstr dsc ! k) = tolower (cstr (desc e) ! k))"
    using True char_at_cstr [of _ dsc] char_at_cstr [of _ "desc e"]
    by (auto simp: strlen_def)
  also have "\<dots> \<longleftrightarrow> map tolower (cstr dsc) = map tolower (cstr (desc e))"
    by (rule map_eq_iff_nth [OF len, symmetric])
  finally show ?thesis using len by (simp add: ci_equal_spec_def)
qed

lemma strncasecmp_loop_zero:
  assumes "\<forall>k. i \<le> k \<and> k < i + n \<longrightarrow> char_at s1 k \<noteq> CHR 0x00"
  shows "strncasecmp_loop s1 s2 i n = 0 \<longleftrightarrow>
    (\<forall>k. i \<le> k \<and> k < i + n \<longrightarrow> toupper (char_at s1 k) = toupper (char_at s2 k))"
  using assms
proof (induction n arbitrary: i)
  case 0
  then show ?case by auto
next
  case (Suc n)
  have nz: "toupper (char_at s1 i) \<noteq> CHR 0x00"
    using Suc.prems by (simp add: toupper_NUL)
  have ih: "strncasecmp_loop s1 s2 (i + 1) n = 0 \<longleftrightarrow>
      (\<forall>k. i + 1 \<le> k \<and> k < i + 1 + n \<longrightarrow> toupper (char_at s1 k) = toupper (char_at s2 k))"
    using Suc.prems by (intro Suc.IH) auto
  have split: "(\<forall>k. i \<le> k \<and> k < i + Suc n \<longrightarrow> Q k) \<longleftrightarrow>
      Q i \<and> (\<forall>k. i + 1 \<le> k \<and> k < i + 1 + n \<longrightarrow> Q k)" for Q
  proof
    assume a: "\<forall>k. i \<le> k \<and> k < i + Suc n \<longrightarrow> Q k"
    then show "Q i \<and> (\<forall>k. i + 1 \<le> k \<and> k < i + 1 + n \<longrightarrow> Q k)" by auto
  next
    assume b: "Q i \<and> (\<forall>k. i + 1 \<le> k \<and> k < i + 1 + n \<longrightarrow> Q k)"
    show "\<forall>k. i \<le> k \<and> k < i + Suc n \<longrightarrow> Q k"
    proof (intro allI impI)
      fix k assume k: "i \<le> k \<and> k < i + Suc n"
      show "Q k"
      proof (cases "k = i")
        case True
        with b show ?thesis by simp
      next
        case False
        with k have "i + 1 \<le> k \<and> k < i + 1 + n" by auto
        with b show ?thesis by blast
      qed
    qed
  qed
  show ?case
  proof (cases "toupper (char_at s1 i) = toupper (char_at s2 i)")
    case True
    have step: "strncasecmp_loop s1 s2 i (Suc n) = strncasecmp_loop s1 s2 (i + 1) n"
      using True nz by (simp add: islower_toupper Let_def)
    show ?thesis
      unfolding step ih split [of "\<lambda>k. toupper (char_at s1 k) = toupper (char_at s2 k)"]
      using True by simp
  next
    case False
    then have "(of_char (toupper (char_at s1 i)) :: nat) \<noteq> of_char (toupper (char_at s2 i))"
      by simp
    then have "strncasecmp_loop s1 s2 i (Suc n) \<noteq> 0"
      by (auto simp: islower_toupper Let_def)
    with False show ?thesis by (auto simp: split)
  qed
qed

lemma name_matches_iff: "name_matches nam e \<longleftrightarrow> ci_equal_spec (cstr nam) (cstr (name e))"
proof (cases "strlen nam = strlen (name e)")
  case False
  then show ?thesis by (auto simp: name_matches_def ci_equal_spec_def strlen_def)
next
  case True
  then have len: "length (cstr nam) = length (cstr (name e))" by (simp add: strlen_def)
  have "name_matches nam e \<longleftrightarrow> strncasecmp_loop nam (name e) 0 (strlen nam) = 0"
    using True by (simp add: name_matches_def sim_serial_strncasecmp_def)
  also have "\<dots> \<longleftrightarrow> (\<forall>k. 0 \<le> k \<and> k < 0 + strlen nam \<longrightarrow>
      toupper (char_at nam k) = toupper (char_at (name e) k))"
    by (intro strncasecmp_loop_zero) (simp add: char_at_nonzero)
  also have "\<dots> \<longleftrightarrow> (\<forall>k<length (cstr nam). tolower (cstr nam ! k) = tolower (cstr (name e) ! k))"
    using True char_at_cstr [of _ nam] char_at_cstr [of _ "name e"]
    by (auto simp: strlen_def toupper_eq_iff)
  also have "\<dots> \<longleftrightarrow> map tolower (cstr nam) = map tolower (cstr (name e))"
    by (rule map_eq_iff_nth [OF len, symmetric])
  finally show ?thesis using len by (simp add: ci_equal_spec_def)
qed

lemma getname_bydesc_loop_find:
  "getname_bydesc_loop dsc list =
    map_option (\<lambda>e. cstr (name e)) (find (\<lambda>e. ci_equal_spec (cstr dsc) (cstr (desc e))) list)"
  by (induction list) (simp_all add: desc_matches_iff strcpy_def)

lemma getname_byname_loop_find:
  "getname_byname_loop nam list =
    map_option (\<lambda>e. cstr (name e)) (find (\<lambda>e. ci_equal_spec (cstr nam) (cstr (name e))) list)"
  by (induction list) (simp_all add: name_matches_iff strcpy_def)

lemma getdesc_byname_loop_find:
  "getdesc_byname_loop nam list =
    map_option (\<lambda>e. cstr (desc e)) (find (\<lambda>e. ci_equal_spec (cstr nam) (cstr (name e))) list)"
  by (induction list) (simp_all add: name_matches_iff strcpy_def)

lemma cstr_Nil [simp]: "cstr [] = []"
  by (simp add: cstr_def)

lemma cstr_Cons: "cstr (a # as) = (if a = CHR 0x00 then [] else a # cstr as)"
  by (simp add: cstr_def)

lemma cstr_idem [simp]: "cstr (cstr s) = cstr s"
  by (simp add: cstr_def takeWhile_idem)

lemma char_less_iff: "(a :: char) < b \<longleftrightarrow> (of_char a :: nat) < of_char b"
  by (simp add: less_char_def)

lemma of_char_NUL_le: "(of_char (CHR 0x00) :: nat) \<le> of_char b"
  by simp

lemma strcmp_le_iff: "strcmp a b \<le> 0 \<longleftrightarrow> cstr a \<le> cstr b"
proof (induction a b rule: strcmp.induct)
  case 1
  then show ?case by simp
next
  case (2 b bs)
  then show ?case by (simp add: cstr_Cons)
next
  case (3 a as)
  then show ?case by (simp add: cstr_Cons)
next
  case (4 a as b bs)
  show ?case
  proof (cases "a = b")
    case True
    with 4 show ?thesis by (simp add: cstr_Cons)
  next
    case False
    then have ne: "(of_char a :: nat) \<noteq> of_char b" by simp
    show ?thesis
    proof (cases "(of_char a :: nat) < of_char b")
      case True
      then have "a \<noteq> CHR 0x00 \<Longrightarrow> b \<noteq> CHR 0x00" by auto
      with True show ?thesis by (auto simp: cstr_Cons char_less_iff)
    next
      case False
      with ne have gt: "(of_char b :: nat) < of_char a" by linarith
      then have "a \<noteq> CHR 0x00" by auto
      with gt False show ?thesis
        by (auto simp: cstr_Cons char_less_iff)
    qed
  qed
qed

lemma strcmp_eq_iff: "strcmp a b = 0 \<longleftrightarrow> cstr a = cstr b"
proof (induction a b rule: strcmp.induct)
  case 1
  then show ?case by simp
next
  case (2 b bs)
  then show ?case by (simp add: cstr_Cons)
next
  case (3 a as)
  then show ?case by (simp add: cstr_Cons)
next
  case (4 a as b bs)
  show ?case
  proof (cases "a = b")
    case True
    with 4 show ?thesis by (simp add: cstr_Cons)
  next
    case False
    then have ne: "(of_char a :: nat) \<noteq> of_char b" by simp
    then show ?thesis using False
      by (auto simp: cstr_Cons)
  qed
qed

lemma set_qsort_insert [simp]: "set (qsort_insert cmp x xs) = insert x (set xs)"
  by (induction xs) auto

lemma set_qsort [simp]: "set (qsort cmp xs) = set xs"
  by (induction xs) auto

lemma length_qsort_insert [simp]: "length (qsort_insert cmp x xs) = Suc (length xs)"
  by (induction xs) auto

lemma length_qsort [simp]: "length (qsort cmp xs) = length xs"
  by (induction xs) auto

lemma sorted_qsort_insert:
  "sorted (map (\<lambda>e. cstr (name e)) xs) \<Longrightarrow>
    sorted (map (\<lambda>e. cstr (name e)) (qsort_insert serial_name_compare x xs))"
proof (induction xs)
  case Nil
  then show ?case by simp
next
  case (Cons y ys)
  show ?case
  proof (cases "serial_name_compare x y \<le> 0")
    case True
    then have "cstr (name x) \<le> cstr (name y)"
      by (simp add: serial_name_compare_def strcmp_le_iff)
    with Cons.prems True show ?thesis by auto
  next
    case False
    then have "cstr (name y) \<le> cstr (name x)"
      by (simp add: serial_name_compare_def strcmp_le_iff)
    with Cons False show ?thesis by auto
  qed
qed

lemma sorted_qsort: "sorted (map (\<lambda>e. cstr (name e)) (qsort serial_name_compare xs))"
  by (induction xs) (simp_all add: sorted_qsort_insert)

lemma name_in_list_iff:
  "list_ex (\<lambda>e. 0 = strcmp a (name e)) list \<longleftrightarrow> cstr a \<in> (\<lambda>e. cstr (name e)) ` set list"
  by (auto simp: list_ex_iff strcmp_eq_iff eq_commute [of 0])

lemma tolower_NUL [simp]: "tolower (CHR 0x00) = CHR 0x00"
  by (simp add: tolower_def isupper_def)

lemma isdigit_facts:
  assumes "isdigit c"
  shows "c \<noteq> CHR 0x00" "\<not> isspace c" "c \<noteq> CHR ''-''" "c \<noteq> CHR ''+''" "0 \<le> int (of_char c) - 48"
  using assms by (auto simp: isdigit_def isspace_def)

lemma cstr_no_NUL: "CHR 0x00 \<notin> set s \<Longrightarrow> cstr s = s"
  by (auto simp: cstr_def takeWhile_eq_all_conv)

lemma indexed_form_cases:
  assumes "indexed_form_spec nam"
  obtains (one) a b c d where "nam = [a, b, c, d]"
      "tolower a = CHR ''s''" "tolower b = CHR ''e''" "tolower c = CHR ''r''" "isdigit d"
    | (two) a b c d e where "nam = [a, b, c, d, e]"
      "tolower a = CHR ''s''" "tolower b = CHR ''e''" "tolower c = CHR ''r''" "isdigit d" "isdigit e"
proof -
  from assms have len: "length nam = 4 \<or> length nam = 5"
    and ser: "map tolower (take 3 nam) = ''ser''" and dig: "list_all isdigit (drop 3 nam)"
    by (simp_all add: indexed_form_spec_def)
  from len show ?thesis
  proof
    assume "length nam = 4"
    then obtain a b c d where n: "nam = [a, b, c, d]"
      by (auto simp: length_Suc_conv numeral_eq_Suc)
    with ser dig show ?thesis by (intro one [of a b c d]) (simp_all add: numeral_eq_Suc)
  next
    assume "length nam = 5"
    then obtain a b c d e where n: "nam = [a, b, c, d, e]"
      by (auto simp: length_Suc_conv numeral_eq_Suc)
    with ser dig show ?thesis by (intro two [of a b c d e]) (simp_all add: numeral_eq_Suc)
  qed
qed

lemma indexed_form_is_serX:
  assumes "indexed_form_spec nam"
  shows "is_serX nam \<and> atoi (drop 3 nam) = index_spec nam \<and> 0 \<le> index_spec nam \<and> cstr nam = nam"
  using assms
proof (cases rule: indexed_form_cases)
  case (one a b c d)
  have nz: "a \<noteq> CHR 0x00" "b \<noteq> CHR 0x00" "c \<noteq> CHR 0x00" "d \<noteq> CHR 0x00"
    using one by (auto dest: isdigit_facts(1))
  then have c: "cstr nam = nam"
    using one(1) by (intro cstr_no_NUL) auto
  have "is_serX nam"
    using one c by (simp add: is_serX_def strlen_def char_at_def)
  moreover have "atoi (drop 3 nam) = index_spec nam"
    using one(1) isdigit_facts [OF one(5)] one(5)
    by (simp add: atoi_def index_spec_def numeral_eq_Suc)
  moreover have "0 \<le> index_spec nam"
    using one(1) isdigit_facts [OF one(5)] by (simp add: index_spec_def numeral_eq_Suc)
  ultimately show ?thesis using c by simp
next
  case (two a b c d e)
  have nz: "a \<noteq> CHR 0x00" "b \<noteq> CHR 0x00" "c \<noteq> CHR 0x00" "d \<noteq> CHR 0x00" "e \<noteq> CHR 0x00"
    using two by (auto dest: isdigit_facts(1))
  then have c: "cstr nam = nam"
    using two(1) by (intro cstr_no_NUL) auto
  have "is_serX nam"
    using two c by (simp add: is_serX_def strlen_def char_at_def)
  moreover have "atoi (drop 3 nam) = index_spec nam"
    using two(1) isdigit_facts [OF two(5)] two(5,6)
    by (simp add: atoi_def index_spec_def numeral_eq_Suc)
  moreover have "0 \<le> index_spec nam"
    using two(1) isdigit_facts [OF two(5)] isdigit_facts [OF two(6)]
    by (simp add: index_spec_def numeral_eq_Suc)
  ultimately show ?thesis using c by simp
qed

lemma ci_equal_spec_refl [simp]: "ci_equal_spec a a"
  by (simp add: ci_equal_spec_def)

lemma find_first:
  assumes "i < length xs" "P (xs ! i)" "\<forall>j<i. \<not> P (xs ! j)"
  shows "find P xs = Some (xs ! i)"
  using assms by (auto simp: find_Some_iff)

lemma find_exists:
  assumes "i < length xs" "P (xs ! i)"
  shows "\<exists>j\<le>i. find P xs = Some (xs ! j) \<and> P (xs ! j) \<and> (\<forall>k<j. \<not> P (xs ! k))"
proof -
  from assms have "\<exists>x\<in>set xs. P x" by auto
  then obtain x where "find P xs = Some x"
    by (cases "find P xs") (auto simp: find_None_iff)
  then obtain j where j: "j < length xs" "P (xs ! j)" "x = xs ! j" "\<forall>k<j. \<not> P (xs ! k)"
    by (auto simp: find_Some_iff)
  with assms(2) have "j \<le> i" by (meson not_le_imp_less)
  with j \<open>find P xs = Some x\<close> show ?thesis by blast
qed

lemma sim_serial_getname_index:
  assumes "0 \<le> i"
  shows "sim_serial_getname os_list st i =
    (if length (sim_serial_devices os_list st SER_MAX_DEVICE) \<le> nat i then None
     else Some (cstr (name (sim_serial_devices os_list st SER_MAX_DEVICE ! nat i))))"
  using assms by (auto simp: sim_serial_getname_def Let_def strcpy_def)

lemma sim_serial_getdesc_byname_find:
  "sim_serial_getdesc_byname os_list st nam =
    map_option (\<lambda>e. cstr (desc e))
      (find (\<lambda>e. ci_equal_spec (cstr nam) (cstr (name e))) (sim_serial_devices os_list st SER_MAX_DEVICE))"
  by (simp add: sim_serial_getdesc_byname_def getdesc_byname_loop_find)

lemma appended_spec_Nil [simp]: "appended_spec seen [] = []"
  by (simp add: appended_spec_def)

lemma appended_spec_Cons:
  "appended_spec seen (d # ds) =
    (if cstr (open_name d) \<in> set seen then appended_spec seen ds
     else \<lparr>name = cstr (open_name d), desc = cstr (open_desc d)\<rparr> #
            appended_spec (seen @ [cstr (open_name d)]) ds)"
proof -
  have "[0..<Suc (length ds)] = 0 # [Suc 0..<Suc (length ds)]"
    by (rule upt_conv_Cons) simp
  also have "[Suc 0..<Suc (length ds)] = map Suc [0..<length ds]"
    by (rule map_Suc_upt [symmetric])
  finally have upt: "[0..<length (d # ds)] = 0 # map Suc [0..<length ds]"
    by simp
  have cong: "map f (filter P xs) = map f (filter Q xs)" if "\<And>x. P x = Q x"
    for f :: "nat \<Rightarrow> serial_list" and P Q xs
    using that by (simp cong: filter_cong)
  show ?thesis
    unfolding appended_spec_def upt
    by (auto simp: filter_map comp_def intro!: cong)
qed

lemma merge_open_spec:
  "length list \<le> max' \<Longrightarrow>
    merge_open max' list ds =
      list @ take (max' - length list) (appended_spec (map (\<lambda>e. cstr (name e)) list) ds)"
proof (induction ds arbitrary: list)
  case Nil
  then show ?case by simp
next
  case (Cons d ds)
  let ?new = "\<lparr>name = strcpy (open_name d), desc = strcpy (open_desc d)\<rparr>"
  consider (present) "list_ex (\<lambda>e. 0 = strcmp (open_name d) (name e)) list"
    | (full) "\<not> list_ex (\<lambda>e. 0 = strcmp (open_name d) (name e)) list" "length list \<ge> max'"
    | (append) "\<not> list_ex (\<lambda>e. 0 = strcmp (open_name d) (name e)) list" "\<not> length list \<ge> max'"
    by blast
  then show ?case
  proof cases
    case present
    then have "cstr (open_name d) \<in> set (map (\<lambda>e. cstr (name e)) list)"
      unfolding name_in_list_iff by simp
    with present Cons show ?thesis
      by (simp add: appended_spec_Cons)
  next
    case full
    with Cons.prems show ?thesis by simp
  next
    case append
    from append(1) have notin: "cstr (open_name d) \<notin> set (map (\<lambda>e. cstr (name e)) list)"
      unfolding name_in_list_iff by simp
    have len: "length (list @ [?new]) \<le> max'" using append(2) by simp
    have "merge_open max' list (d # ds) = merge_open max' (list @ [?new]) ds"
      using append by simp
    also have "\<dots> = (list @ [?new]) @ take (max' - length (list @ [?new]))
        (appended_spec (map (\<lambda>e. cstr (name e)) (list @ [?new])) ds)"
      by (rule Cons.IH [OF len])
    also have "\<dots> = list @ take (max' - length list)
        (appended_spec (map (\<lambda>e. cstr (name e)) list) (d # ds))"
      using append(2) notin
      by (simp add: appended_spec_Cons strcpy_def take_Cons' del: set_map)
    finally show ?thesis .
  qed
qed

lemma count_list_qsort_insert:
  "count_list (qsort_insert cmp x xs) e = count_list (x # xs) e"
  by (induction xs) auto

lemma count_list_qsort: "count_list (qsort cmp xs) e = count_list xs e"
  by (induction xs) (simp_all add: count_list_qsort_insert)

lemma sim_serial_os_devices_unix_bound: "length (sim_serial_os_devices_unix ttys max') \<le> max'"
  by (simp add: sim_serial_os_devices_unix_def)

lemma win_enum_loop_Some:
  "win_enum_loop max' list vals = Some l \<Longrightarrow> length list \<le> max' \<Longrightarrow>
    l = list @ map fst (filter snd vals) \<and> length l \<le> max'"
  by (induction max' list vals arbitrary: l rule: win_enum_loop.induct)
     (auto simp: Let_def split: if_splits)

lemma sim_serial_os_devices_win_bound:
  "sim_serial_os_devices_win vals max' = Some l \<Longrightarrow>
    l = map fst (filter snd vals) \<and> length l \<le> max'"
  using win_enum_loop_Some [of max' "[]" vals l] by (auto simp: sim_serial_os_devices_win_def)

lemma ci_equal_spec_sym: "ci_equal_spec a b \<Longrightarrow> ci_equal_spec b a"
  by (simp add: ci_equal_spec_def)

lemma ci_equal_spec_trans: "ci_equal_spec a b \<Longrightarrow> ci_equal_spec b c \<Longrightarrow> ci_equal_spec a c"
  by (simp add: ci_equal_spec_def)

lemma find_same_class:
  assumes "find (\<lambda>e. ci_equal_spec a (cstr (name e))) cat = Some e"
  shows "find (\<lambda>e'. ci_equal_spec (cstr (name e)) (cstr (name e'))) cat = Some e"
proof -
  from assms have ae: "ci_equal_spec a (cstr (name e))"
    by (auto simp: find_Some_iff)
  have eq: "(\<lambda>e'. ci_equal_spec (cstr (name e)) (cstr (name e'))) =
      (\<lambda>e'. ci_equal_spec a (cstr (name e')))"
    using ae by (intro ext) (metis ci_equal_spec_sym ci_equal_spec_trans)
  show ?thesis unfolding eq by (rule assms)
qed

lemma translate_long_name:
  assumes "5 < length (cstr nam)"
  shows "translate_name os_list st nam =
    (case find (\<lambda>e. ci_equal_spec (cstr nam) (cstr (desc e))) (sim_serial_devices os_list st SER_MAX_DEVICE) of
       Some e \<Rightarrow> Some (cstr (name e), Some nam)
     | None \<Rightarrow>
        (case find (\<lambda>e. ci_equal_spec (cstr nam) (cstr (name e))) (sim_serial_devices os_list st SER_MAX_DEVICE) of
           Some e \<Rightarrow> Some (cstr (name e), Some (cstr (desc e)))
         | None \<Rightarrow> Some (nam, None)))"
proof -
  let ?cat = "sim_serial_devices os_list st SER_MAX_DEVICE"
  from assms have ns: "\<not> is_serX nam"
    by (simp add: is_serX_def strlen_def)
  have bd: "sim_serial_getname_bydesc os_list st nam =
      map_option (\<lambda>e. cstr (name e)) (find (\<lambda>e. ci_equal_spec (cstr nam) (cstr (desc e))) ?cat)"
    by (simp add: sim_serial_getname_bydesc_def getname_bydesc_loop_find)
  have bn: "sim_serial_getname_byname os_list st nam =
      map_option (\<lambda>e. cstr (name e)) (find (\<lambda>e. ci_equal_spec (cstr nam) (cstr (name e))) ?cat)"
    by (simp add: sim_serial_getname_byname_def getname_byname_loop_find)
  show ?thesis
  proof (cases "find (\<lambda>e. ci_equal_spec (cstr nam) (cstr (desc e))) ?cat")
    case (Some e)
    then show ?thesis using ns by (simp add: translate_name_def bd)
  next
    case None
    show ?thesis
    proof (cases "find (\<lambda>e. ci_equal_spec (cstr nam) (cstr (name e))) ?cat")
      case n: None
      with None ns show ?thesis by (simp add: translate_name_def bd bn)
    next
      case (Some e)
      from find_same_class [OF Some]
      have "sim_serial_getdesc_byname os_list st (cstr (name e)) = Some (cstr (desc e))"
        by (simp add: sim_serial_getdesc_byname_find)
      with None Some ns show ?thesis by (simp add: translate_name_def bd bn)
    qed
  qed
qed

lemma win_enum_loop_result:
  "length list < max' \<Longrightarrow>
    win_enum_loop max' list vals =
      (if length list + length (filter snd vals) < max'
       then Some (list @ map fst (filter snd vals)) else None)"
proof (induction vals arbitrary: list)
  case Nil
  then show ?case by simp
next
  case (Cons v vals)
  obtain e s where v: "v = (e, s)" by (cases v)
  show ?case
  proof (cases s)
    case False
    with Cons v show ?thesis by simp
  next
    case True
    show ?thesis
    proof (cases "length (list @ [e]) < max'")
      case l: True
      from Cons.IH [OF l] Cons.prems True v l show ?thesis by simp
    next
      case l: False
      with Cons.prems True v show ?thesis by simp
    qed
  qed
qed

lemma sim_serial_os_devices_win_result:
  "0 < max' \<Longrightarrow>
    sim_serial_os_devices_win vals max' =
      (if length (filter snd vals) < max' then Some (map fst (filter snd vals)) else None)"
  using win_enum_loop_result [of "[]" max' vals] by (simp add: sim_serial_os_devices_win_def)

subsection \<open>Configuring a serial port\<close>

lemma assign_baud_found:
  assumes "i \<le> k" "k < baud_count" "fst (baud_map ! k) = rate"
  shows "fst (assign_baud rate i tio) < baud_count"
  using assms
proof (induction rate i tio rule: assign_baud.induct)
  case (1 rate i tio)
  from 1(2,3) have lt: "i < baud_count" by simp
  show ?case
  proof (cases "rate = fst (baud_map ! i)")
    case True
    with lt show ?thesis by (subst assign_baud.simps) simp
  next
    case False
    with 1(4) have "i \<noteq> k" by auto
    with 1(2) have "i + 1 \<le> k" by simp
    from "1.IH" [OF lt False this 1(3,4)] lt False show ?thesis
      by (subst assign_baud.simps) simp
  qed
qed

lemma sim_config_serial_win_status:
  "sim_config_serial_win GetCommState SetCommState config \<in> {SCPE_OK, SCPE_ARG, SCPE_IOERR}"
proof (cases GetCommState)
  case None
  then show ?thesis by (simp add: sim_config_serial_win_def)
next
  case (Some dcb)
  obtain i dcb' where ap: "assign_parity (parity config) 0
      (dcb\<lparr>BaudRate := baudrate config, ByteSize := charsize config\<rparr>) = (i, dcb')"
    by (cases "assign_parity (parity config) 0
      (dcb\<lparr>BaudRate := baudrate config, ByteSize := charsize config\<rparr>)")
  show ?thesis
    by (simp add: sim_config_serial_win_def Some ap Let_def split: option.splits)
qed

lemma sim_config_serial_win_charsize:
  "charsize config < 5 \<or> charsize config > 8 \<Longrightarrow>
    sim_config_serial_win (Some dcb) SetCommState config = SCPE_ARG"
  by (auto simp: sim_config_serial_win_def)

lemma sim_config_serial_unix_charsize:
  "charsize config < 5 \<or> charsize config > 8 \<Longrightarrow>
    sim_config_serial_unix (Some tio) tcsetattr config = SCPE_ARG"
proof -
  assume c: "charsize config < 5 \<or> charsize config > 8"
  obtain i tio' where ab: "assign_baud (baudrate config) 0 tio = (i, tio')"
    by (cases "assign_baud (baudrate config) 0 tio")
  from c show ?thesis
    by (auto simp: sim_config_serial_unix_def ab)
qed

section \<open>The claims\<close>

subsection \<open>Stream decoders\<close>

text \<open>
  C1. Encoding A, the termios \<^verbatim>\<open>sim_read_serial\<close>: scanning left to right, \<open>ESC ESC\<close>
  is collapsed to one \<open>ESC\<close>, \<open>ESC NUL C\<close> to the byte \<open>C\<close>, whose break flag is
  set exactly when \<open>C\<close> is NUL, and every other byte passes through. For every input
  that fits the buffer, with the break flags cleared by the caller, the count returned,
  the characters and their flags are those of \<^const>\<open>decodeA_spec\<close>. The witness holds
  the two inputs of the specification.
\<close>

theorem sim_read_serial_unix_decodes:
  assumes "length xs \<le> length buffer" and "length xs \<le> length brk" and "set brk \<subseteq> {0}"
  shows "fst (sim_read_serial_unix (Read_bytes xs) buffer brk) = int (length (decodeA_spec xs)) \<and>
    received (sim_read_serial_unix (Read_bytes xs) buffer brk) =
      (map fst (decodeA_spec xs), map snd (decodeA_spec xs))"
proof -
  from sim_read_serial_unix_result [OF assms(1), of brk]
  have "fst (sim_read_serial_unix (Read_bytes xs) buffer brk) = int (length (decodeA_spec xs))"
    by auto
  with received_unix [OF assms] show ?thesis by simp
qed

theorem sim_read_serial_unix_decodes_witness:
  "received (sim_read_serial_unix (Read_bytes [0x41, 0xFF, 0xFF, 0x42]) [0, 0, 0, 0] [0, 0, 0, 0]) =
     ([0x41, 0xFF, 0x42], [False, False, False]) \<and>
   received (sim_read_serial_unix (Read_bytes [0xFF, 0, 0]) [0, 0, 0] [0, 0, 0]) = ([0], [True])"
  using sim_read_serial_unix_decodes [of "[0x41, 0xFF, 0xFF, 0x42]" "[0, 0, 0, 0]" "[0, 0, 0, 0]"]
    sim_read_serial_unix_decodes [of "[0xFF, 0, 0]" "[0, 0, 0]" "[0, 0, 0]"]
  by simp

text \<open>
  C3. Encoding B, the Windows \<^verbatim>\<open>sim_read_serial\<close>: when a BREAK is reported, exactly
  one slot of the break flags is written, the slot of the first NUL among the bytes
  read, or slot 0 when there is no NUL; when no BREAK is reported the flags are left as
  they were.
\<close>

theorem sim_read_serial_win_break:
  assumes "length xs \<le> length brk" and "brk \<noteq> []"
  shows "snd (snd (sim_read_serial_win (Some commerrors) (Some xs) buffer brk)) =
      (if and commerrors CE_BREAK \<noteq> 0 then brk[break_position xs := 1] else brk) \<and>
    break_position xs < length brk \<and>
    (0 \<in> set xs \<longrightarrow> xs ! break_position xs = 0 \<and> 0 \<notin> set (take (break_position xs) xs)) \<and>
    (0 \<notin> set xs \<longrightarrow> break_position xs = 0)"
proof -
  have "break_position xs < length brk"
  proof (cases "xs = []")
    case True
    with assms(2) show ?thesis by (simp add: break_position_def)
  next
    case False
    from break_position_less [OF this] assms(1) show ?thesis by simp
  qed
  moreover have "xs ! break_position xs = 0 \<and> 0 \<notin> set (take (break_position xs) xs)" if "0 \<in> set xs"
  proof -
    have "xs ! length (takeWhile (\<lambda>b. b \<noteq> 0) xs) = 0"
      using that takeWhile_first [of 0 xs] by simp
    moreover have "0 \<notin> set (takeWhile (\<lambda>b. b \<noteq> 0) xs)"
      by (auto dest: set_takeWhileD)
    ultimately show ?thesis
      using that by (simp add: break_position_def takeWhile_eq_take [symmetric])
  qed
  ultimately show ?thesis
    by (simp add: sim_read_serial_win_result break_position_def)
qed

theorem sim_read_serial_win_break_witness:
  "snd (snd (sim_read_serial_win (Some CE_BREAK) (Some [0x10, 0x00, 0x20]) [0, 0, 0] [0, 0, 0])) = [0, 1, 0] \<and>
   snd (snd (sim_read_serial_win (Some CE_BREAK) (Some [0x10, 0x20]) [0, 0, 0] [0, 0, 0])) = [1, 0, 0] \<and>
   snd (snd (sim_read_serial_win (Some 0) (Some [0x10, 0x00, 0x20]) [0, 0, 0] [0, 0, 0])) = [0, 0, 0]"
  using sim_read_serial_win_break [of "[0x10, 0x00, 0x20]" "[0, 0, 0]" CE_BREAK "[0, 0, 0]"]
    sim_read_serial_win_break [of "[0x10, 0x20]" "[0, 0, 0]" CE_BREAK "[0, 0, 0]"]
    sim_read_serial_win_break [of "[0x10, 0x00, 0x20]" "[0, 0, 0]" 0 "[0, 0, 0]"]
  by (simp add: break_position_def CE_BREAK_def)

text \<open>
  C2, as the code has it. The count returned never exceeds the number of bytes read. On
  the termios backend no flag is written at or beyond the count returned. On the Windows
  backend the same holds whenever at least one character is returned; a BREAK reported
  with no character read writes slot 0. A read that fails on the termios backend writes
  no flag.
\<close>

theorem break_flags_within_output:
  assumes "length xs \<le> length buffer"
  shows "(case sim_read_serial_unix (Read_bytes xs) buffer brk of (read_count, buffer', brk') \<Rightarrow>
        0 \<le> read_count \<and> read_count \<le> int (length xs) \<and> length brk' = length brk \<and>
        (\<forall>i. nat read_count \<le> i \<and> i < length brk \<longrightarrow> brk' ! i = brk ! i)) \<and>
    (case sim_read_serial_win (Some commerrors) (Some xs) buffer brk of (read_count, buffer', brk') \<Rightarrow>
        read_count = int (length xs) \<and> length brk' = length brk \<and>
        (\<forall>i. nat read_count \<le> i \<and> i < length brk \<and> brk' ! i \<noteq> brk ! i \<longrightarrow> xs = [] \<and> i = 0) \<and>
        (xs = [] \<and> and commerrors CE_BREAK \<noteq> 0 \<longrightarrow> brk' = brk[0 := 1])) \<and>
    snd (snd (sim_read_serial_unix (Read_error errno) buffer brk)) = brk"
proof -
  from sim_read_serial_unix_result [OF assms, of brk]
  obtain junk where u: "sim_read_serial_unix (Read_bytes xs) buffer brk =
      (int (length (decodeA_spec xs)), map fst (decodeA_spec xs) @ junk,
       mark_breaks 0 (map snd (decodeA_spec xs)) brk)"
    by blast
  have a: "mark_breaks 0 (map snd (decodeA_spec xs)) brk ! i = brk ! i"
    if "length (decodeA_spec xs) \<le> i" "i < length brk" for i
    using that by (simp add: mark_breaks_nth)
  have b: "xs = [] \<and> i = 0"
    if "length xs \<le> i" "i < length brk" "brk[break_position xs := 1] ! i \<noteq> brk ! i" for i
  proof -
    from that(3) have i: "i = break_position xs"
      by (metis nth_list_update_neq)
    with that(1) break_position_less [of xs] have "xs = []"
      by (cases "xs = []") auto
    with i show ?thesis by (simp add: break_position_def)
  qed
  have "case sim_read_serial_unix (Read_bytes xs) buffer brk of (read_count, buffer', brk') \<Rightarrow>
        0 \<le> read_count \<and> read_count \<le> int (length xs) \<and> length brk' = length brk \<and>
        (\<forall>i. nat read_count \<le> i \<and> i < length brk \<longrightarrow> brk' ! i = brk ! i)"
    using a length_decodeA_spec [of xs] by (simp add: u)
  moreover have "case sim_read_serial_win (Some commerrors) (Some xs) buffer brk of (read_count, buffer', brk') \<Rightarrow>
        read_count = int (length xs) \<and> length brk' = length brk \<and>
        (\<forall>i. nat read_count \<le> i \<and> i < length brk \<and> brk' ! i \<noteq> brk ! i \<longrightarrow> xs = [] \<and> i = 0) \<and>
        (xs = [] \<and> and commerrors CE_BREAK \<noteq> 0 \<longrightarrow> brk' = brk[0 := 1])"
    using b by (auto simp: sim_read_serial_win_result break_position_def)
  moreover have "snd (snd (sim_read_serial_unix (Read_error errno) buffer brk)) = brk"
    by (simp add: sim_read_serial_unix_def)
  ultimately show ?thesis by simp
qed

theorem break_flags_within_output_witness:
  "(case sim_read_serial_unix (Read_bytes [0xFF, 0, 0, 0x41]) [0, 0, 0, 0] [0, 0, 0, 0] of
      (read_count, buffer', brk') \<Rightarrow> read_count \<le> 4 \<and> brk' ! 2 = 0 \<and> brk' ! 3 = 0) \<and>
   (case sim_read_serial_win (Some CE_BREAK) (Some [0x10, 0x20]) [0, 0, 0, 0] [0, 0, 0, 0] of
      (read_count, buffer', brk') \<Rightarrow> read_count = 2 \<and> brk' ! 2 = 0 \<and> brk' ! 3 = 0)"
proof -
  have u: "sim_read_serial_unix (Read_bytes [0xFF, 0, 0, 0x41]) [0, 0, 0, 0] [0, 0, 0, 0] = (2, [0, 0x41, 0, 0x41], [1, 0, 0, 0])"
    by code_simp
  have w: "sim_read_serial_win (Some CE_BREAK) (Some [0x10, 0x20]) [0, 0, 0, 0] [0, 0, 0, 0] = (2, [0x10, 0x20, 0, 0], [1, 0, 0, 0])"
    by code_simp
  show ?thesis
    using break_flags_within_output [of "[0xFF, 0, 0, 0x41]" "[0, 0, 0, 0]" "[0, 0, 0, 0]" CE_BREAK EAGAIN]
    by (simp add: u w)
qed

text \<open>
  C2 as stated fails on the Windows backend: a BREAK reported by a read that delivers no
  character sets slot 0, while the count returned is 0.
\<close>

theorem win_break_without_characters:
  "sim_read_serial_win (Some CE_BREAK) (Some []) [0] [0] = (0, [0], [1])"
  by (simp add: sim_read_serial_win_def CE_BREAK_def)

text \<open>
  C9. Encoding A is greedy and does not overlap: after \<open>ESC ESC\<close> or \<open>ESC NUL C\<close> is
  collapsed, the bytes that follow are decoded as a read of their own, so the byte
  produced by the collapse, also when it is \<open>ESC\<close>, never starts a sequence.
\<close>

theorem unescape_resumes_after_collapse:
  assumes "0xFF \<notin> set pre"
    and "length pre + 3 + length rest \<le> length buffer"
    and "length buffer \<le> length brk"
    and "set brk \<subseteq> {0}"
  shows "received (sim_read_serial_unix (Read_bytes (pre @ [0xFF, 0xFF] @ rest)) buffer brk) =
      (pre @ 0xFF # fst (received (sim_read_serial_unix (Read_bytes rest) buffer brk)),
       replicate (length pre) False @ False # snd (received (sim_read_serial_unix (Read_bytes rest) buffer brk))) \<and>
    received (sim_read_serial_unix (Read_bytes (pre @ [0xFF, 0, c] @ rest)) buffer brk) =
      (pre @ c # fst (received (sim_read_serial_unix (Read_bytes rest) buffer brk)),
       replicate (length pre) False @ (c = 0) # snd (received (sim_read_serial_unix (Read_bytes rest) buffer brk)))"
proof -
  have r: "received (sim_read_serial_unix (Read_bytes rest) buffer brk) =
      (map fst (decodeA_spec rest), map snd (decodeA_spec rest))"
    using assms by (intro received_unix) auto
  have e: "received (sim_read_serial_unix (Read_bytes (pre @ [0xFF, 0xFF] @ rest)) buffer brk) =
      (map fst (decodeA_spec (pre @ [0xFF, 0xFF] @ rest)), map snd (decodeA_spec (pre @ [0xFF, 0xFF] @ rest)))"
    using assms by (intro received_unix) auto
  have n: "received (sim_read_serial_unix (Read_bytes (pre @ [0xFF, 0, c] @ rest)) buffer brk) =
      (map fst (decodeA_spec (pre @ [0xFF, 0, c] @ rest)), map snd (decodeA_spec (pre @ [0xFF, 0, c] @ rest)))"
    using assms by (intro received_unix) auto
  have f: "map fst (map (\<lambda>x. (x, False)) pre) = pre" "map snd (map (\<lambda>x. (x, False)) pre) = replicate (length pre) False"
    by (simp_all add: comp_def map_replicate_const)
  show ?thesis
    unfolding r e n decodeA_spec_skip [OF assms(1)] using f by simp
qed

theorem unescape_resumes_after_collapse_witness:
  "received (sim_read_serial_unix (Read_bytes [0x41, 0xFF, 0xFF, 0, 0x42]) (replicate 6 0) (replicate 6 0)) =
     ([0x41, 0xFF, 0, 0x42], [False, False, False, False]) \<and>
   received (sim_read_serial_unix (Read_bytes [0x41, 0xFF, 0, 0xFF, 0, 0x42]) (replicate 6 0) (replicate 6 0)) =
     ([0x41, 0xFF, 0, 0x42], [False, False, False, False])"
proof -
  have r: "received (sim_read_serial_unix (Read_bytes [0, 0x42]) (replicate 6 0) (replicate 6 0)) =
      ([0, 0x42], [False, False])"
    by code_simp
  show ?thesis
    using unescape_resumes_after_collapse [of "[0x41]" "[0, 0x42]" "replicate 6 0" "replicate 6 0" "0xFF"]
    by (simp add: r)
qed

text \<open>
  C10. Encoding A, truncated sequences: an input ending with \<open>ESC NUL\<close> yields an output
  ending with these two bytes, an input ending with \<open>ESC\<close> an output ending with
  \<open>ESC\<close>, in both cases with no break flag on them.
\<close>

theorem unescape_truncated_sequence:
  assumes "length xs + 2 \<le> length buffer" and "length buffer \<le> length brk" and "set brk \<subseteq> {0}"
  shows "(\<exists>cs fs. received (sim_read_serial_unix (Read_bytes (xs @ [0xFF, 0])) buffer brk) =
        (cs @ [0xFF, 0], fs @ [False, False]) \<and> length cs = length fs) \<and>
    (\<exists>cs fs. received (sim_read_serial_unix (Read_bytes (xs @ [0xFF])) buffer brk) =
        (cs @ [0xFF], fs @ [False]) \<and> length cs = length fs)"
proof -
  obtain ds where ds: "decodeA_spec (xs @ [0xFF, 0]) = ds @ [(0xFF, False), (0, False)]"
    using decodeA_spec_ends_ESC_NUL by blast
  obtain es where es: "decodeA_spec (xs @ [0xFF]) = es @ [(0xFF, False)]"
    using decodeA_spec_ends_ESC by blast
  have "received (sim_read_serial_unix (Read_bytes (xs @ [0xFF, 0])) buffer brk) =
      (map fst ds @ [0xFF, 0], map snd ds @ [False, False])"
    using assms by (subst received_unix) (auto simp: ds)
  moreover have "received (sim_read_serial_unix (Read_bytes (xs @ [0xFF])) buffer brk) =
      (map fst es @ [0xFF], map snd es @ [False])"
    using assms by (subst received_unix) (auto simp: es)
  ultimately show ?thesis
    by (metis length_map)
qed

theorem unescape_truncated_sequence_witness:
  "(\<exists>cs fs. received (sim_read_serial_unix (Read_bytes [0x41, 0xFF, 0]) [0, 0, 0] [0, 0, 0]) =
        (cs @ [0xFF, 0], fs @ [False, False]) \<and> length cs = length fs) \<and>
   (\<exists>cs fs. received (sim_read_serial_unix (Read_bytes [0x41, 0xFF]) [0, 0, 0] [0, 0, 0]) =
        (cs @ [0xFF], fs @ [False]) \<and> length cs = length fs)"
  using unescape_truncated_sequence [of "[0x41]" "[0, 0, 0]" "[0, 0, 0]"] by simp

subsection \<open>The list of open serial devices\<close>



subsection \<open>Device list and device names\<close>

text \<open>
  C7, as the code has it. \<^verbatim>\<open>sim_serial_devices\<close>, for a list of at most \<open>max\<close> entries
  stored by the host enumeration: the open devices are gone through in their order; a
  device whose name is in the list, as a name the host reported or as the name of an
  open device appended before, is skipped; any other device is appended, until such a
  device meets a list of \<open>max\<close> entries, which ends the loop. The list returned holds
  exactly the entries of this merged list, each as often, is sorted by name in ascending
  order of the bytes, and has at most \<open>max\<close> entries.
\<close>

theorem sim_serial_devices_merged_sorted:
  assumes "length os_list \<le> max'"
  shows "(\<forall>e. count_list (sim_serial_devices os_list st max') e =
          count_list (os_list @ take (max' - length os_list)
            (appended_spec (map (\<lambda>e. cstr (name e)) os_list) (open_devices st))) e) \<and>
    length (sim_serial_devices os_list st max') =
      length os_list + min (max' - length os_list)
        (length (appended_spec (map (\<lambda>e. cstr (name e)) os_list) (open_devices st))) \<and>
    sorted (map (\<lambda>e. cstr (name e)) (sim_serial_devices os_list st max')) \<and>
    length (sim_serial_devices os_list st max') \<le> max'"
proof -
  let ?m = "os_list @ take (max' - length os_list)
      (appended_spec (map (\<lambda>e. cstr (name e)) os_list) (open_devices st))"
  have m: "merge_open max' os_list (open_devices st) = ?m"
    by (rule merge_open_spec [OF assms])
  have q: "(if length l \<noteq> 0 then qsort serial_name_compare l else l) = qsort serial_name_compare l"
    for l by (cases l) simp_all
  have "sim_serial_devices os_list st max' =
      qsort serial_name_compare (merge_open max' os_list (open_devices st))"
    unfolding sim_serial_devices_def Let_def by (rule q)
  then have cat: "sim_serial_devices os_list st max' = qsort serial_name_compare ?m"
    unfolding m .
  have "length ?m \<le> max'" using assms by simp
  then show ?thesis
    by (simp add: cat count_list_qsort sorted_qsort)
qed

theorem sim_serial_devices_merged_sorted_witness:
  "sim_serial_devices
     (sim_serial_os_devices_unix
        [\<lparr>name = ''COM3'', desc = ''Serial1''\<rparr>, \<lparr>name = ''COM1'', desc = ''Serial0''\<rparr>] 3)
     \<lparr>serial_open_devices = [\<lparr>port = 5, line = 2, open_name = ''COM2'', open_desc = ''''\<rparr>,
                              \<lparr>port = 6, line = 4, open_name = ''COM3'', open_desc = ''''\<rparr>,
                              \<lparr>port = 7, line = 6, open_name = ''COM4'', open_desc = ''''\<rparr>],
      serial_open_device_count = 3\<rparr> 3 =
     [\<lparr>name = ''COM1'', desc = ''Serial0''\<rparr>, \<lparr>name = ''COM2'', desc = ''''\<rparr>,
      \<lparr>name = ''COM3'', desc = ''Serial1''\<rparr>] \<and>
   sorted (map (\<lambda>e. cstr (name e)) (sim_serial_devices
     (sim_serial_os_devices_unix
        [\<lparr>name = ''COM3'', desc = ''Serial1''\<rparr>, \<lparr>name = ''COM1'', desc = ''Serial0''\<rparr>] 3)
     \<lparr>serial_open_devices = [\<lparr>port = 5, line = 2, open_name = ''COM2'', open_desc = ''''\<rparr>,
                              \<lparr>port = 6, line = 4, open_name = ''COM3'', open_desc = ''''\<rparr>,
                              \<lparr>port = 7, line = 6, open_name = ''COM4'', open_desc = ''''\<rparr>],
      serial_open_device_count = 3\<rparr> 3))"
proof -
  let ?os = "sim_serial_os_devices_unix
        [\<lparr>name = ''COM3'', desc = ''Serial1''\<rparr>, \<lparr>name = ''COM1'', desc = ''Serial0''\<rparr>] 3"
  let ?st = "\<lparr>serial_open_devices = [\<lparr>port = 5, line = 2, open_name = ''COM2'', open_desc = ''''\<rparr>,
                              \<lparr>port = 6, line = 4, open_name = ''COM3'', open_desc = ''''\<rparr>,
                              \<lparr>port = 7, line = 6, open_name = ''COM4'', open_desc = ''''\<rparr>],
      serial_open_device_count = 3\<rparr>"
  have e: "sim_serial_devices ?os ?st 3 =
     [\<lparr>name = ''COM1'', desc = ''Serial0''\<rparr>, \<lparr>name = ''COM2'', desc = ''''\<rparr>,
      \<lparr>name = ''COM3'', desc = ''Serial1''\<rparr>]"
    by code_simp
  have len: "length ?os \<le> 3"
    by (rule sim_serial_os_devices_unix_bound)
  from sim_serial_devices_merged_sorted [OF len, of ?st]
  have "sorted (map (\<lambda>e. cstr (name e)) (sim_serial_devices ?os ?st 3))"
    by blast
  with e show ?thesis by blast
qed

text \<open>
  C7 as stated fails: of two open devices of the same name, which the host did not
  report, only the first is appended.
\<close>

theorem sim_serial_devices_same_name_twice:
  "sim_serial_devices []
     \<lparr>serial_open_devices = [\<lparr>port = 3, line = 2, open_name = ''COM1'', open_desc = ''''\<rparr>,
                              \<lparr>port = 4, line = 4, open_name = ''COM1'', open_desc = ''''\<rparr>],
      serial_open_device_count = 2\<rparr> 64 =
     [\<lparr>name = ''COM1'', desc = ''''\<rparr>]"
  by code_simp

text \<open>
  C5. Matching by description and by name: an entry matches exactly when the two
  strings have the same length and agree at every position under ASCII case folding,
  so that a string of another length, a strict prefix among them, never matches. The
  comparison routine is called with the common length, below which neither string holds
  a NUL, so that every position is compared. Both lookups return the name of the first
  entry that matches.
\<close>

theorem name_and_description_matching:
  "(desc_matches dsc e \<longleftrightarrow> ci_equal_spec (cstr dsc) (cstr (desc e))) \<and>
   (name_matches nam e \<longleftrightarrow> ci_equal_spec (cstr nam) (cstr (name e))) \<and>
   (length (cstr dsc) \<noteq> length (cstr (desc e)) \<longrightarrow> \<not> desc_matches dsc e) \<and>
   (length (cstr nam) \<noteq> length (cstr (name e)) \<longrightarrow> \<not> name_matches nam e) \<and>
   sim_serial_getname_bydesc os_list st dsc =
     map_option (\<lambda>e. cstr (name e))
       (find (\<lambda>e. ci_equal_spec (cstr dsc) (cstr (desc e))) (sim_serial_devices os_list st SER_MAX_DEVICE)) \<and>
   sim_serial_getname_byname os_list st nam =
     map_option (\<lambda>e. cstr (name e))
       (find (\<lambda>e. ci_equal_spec (cstr nam) (cstr (name e))) (sim_serial_devices os_list st SER_MAX_DEVICE))"
  by (simp add: desc_matches_iff name_matches_iff ci_equal_spec_def
      sim_serial_getname_bydesc_def sim_serial_getname_byname_def
      getname_bydesc_loop_find getname_byname_loop_find)

theorem name_and_description_matching_witness:
  "name_matches ''com1'' \<lparr>name = ''COM1'', desc = ''Serial0''\<rparr> \<and>
   \<not> name_matches ''COM'' \<lparr>name = ''COM1'', desc = ''Serial0''\<rparr> \<and>
   desc_matches ''SERIAL0'' \<lparr>name = ''COM1'', desc = ''Serial0''\<rparr> \<and>
   \<not> desc_matches ''Serial'' \<lparr>name = ''COM1'', desc = ''Serial0''\<rparr>"
proof -
  let ?e = "\<lparr>name = ''COM1'', desc = ''Serial0''\<rparr>"
  let ?st = "\<lparr>serial_open_devices = [], serial_open_device_count = 0\<rparr>"
  have a: "ci_equal_spec (cstr ''com1'') (cstr (name ?e))"
    by code_simp
  have b: "\<not> ci_equal_spec (cstr ''COM'') (cstr (name ?e))"
    by code_simp
  have c: "ci_equal_spec (cstr ''SERIAL0'') (cstr (desc ?e))"
    by code_simp
  have d: "\<not> ci_equal_spec (cstr ''Serial'') (cstr (desc ?e))"
    by code_simp
  from name_and_description_matching [of "''SERIAL0''" ?e "''com1''" "[]" ?st]
    name_and_description_matching [of "''Serial''" ?e "''COM''" "[]" ?st]
    a b c d
  show ?thesis by blast
qed

text \<open>
  C4, as the code has it. A name of the indexed form, \<^verbatim>\<open>ser\<close> and one or two digits,
  with index \<open>i\<close>: when \<open>i\<close> is not below the number of entries, the translation fails
  and \<^verbatim>\<open>sim_open_serial\<close> returns \<^verbatim>\<open>INVALID_HANDLE\<close> with the list of open devices
  unchanged; otherwise the name is that of entry \<open>i\<close>, and the description is that of
  the first entry whose name equals it under case folding, which is entry \<open>i\<close> when no
  earlier entry has a name equal to it under case folding, the same name included. A
  name of more than five characters is not of the indexed form: it is translated
  through the first entry whose description matches it, else through the first entry
  whose name matches it, else it is passed through as it is, and the translation never
  fails.
\<close>

theorem translate_indexed_name:
  "(indexed_form_spec nam \<longrightarrow>
      (length (sim_serial_devices os_list st SER_MAX_DEVICE) \<le> nat (index_spec nam) \<longrightarrow>
          translate_name os_list st nam = None \<and>
          sim_open_serial os_list sim_open_os_serial nam lp st = (INVALID_HANDLE, st)) \<and>
      (nat (index_spec nam) < length (sim_serial_devices os_list st SER_MAX_DEVICE) \<longrightarrow>
          translate_name os_list st nam =
            Some (cstr (name (sim_serial_devices os_list st SER_MAX_DEVICE ! nat (index_spec nam))),
              map_option (\<lambda>e. cstr (desc e))
                (find (\<lambda>e. ci_equal_spec
                       (cstr (name (sim_serial_devices os_list st SER_MAX_DEVICE ! nat (index_spec nam))))
                       (cstr (name e)))
                   (sim_serial_devices os_list st SER_MAX_DEVICE)))) \<and>
      (nat (index_spec nam) < length (sim_serial_devices os_list st SER_MAX_DEVICE) \<and>
       (\<forall>j<nat (index_spec nam). \<not> ci_equal_spec
          (cstr (name (sim_serial_devices os_list st SER_MAX_DEVICE ! nat (index_spec nam))))
          (cstr (name (sim_serial_devices os_list st SER_MAX_DEVICE ! j)))) \<longrightarrow>
          translate_name os_list st nam =
            Some (cstr (name (sim_serial_devices os_list st SER_MAX_DEVICE ! nat (index_spec nam))),
                  Some (cstr (desc (sim_serial_devices os_list st SER_MAX_DEVICE ! nat (index_spec nam))))))) \<and>
   (5 < length (cstr nam) \<longrightarrow>
      translate_name os_list st nam =
        (case find (\<lambda>e. ci_equal_spec (cstr nam) (cstr (desc e))) (sim_serial_devices os_list st SER_MAX_DEVICE) of
           Some e \<Rightarrow> Some (cstr (name e), Some nam)
         | None \<Rightarrow>
            (case find (\<lambda>e. ci_equal_spec (cstr nam) (cstr (name e))) (sim_serial_devices os_list st SER_MAX_DEVICE) of
               Some e \<Rightarrow> Some (cstr (name e), Some (cstr (desc e)))
             | None \<Rightarrow> Some (nam, None))) \<and>
      translate_name os_list st nam \<noteq> None)"
proof (intro conjI impI)
  let ?cat = "sim_serial_devices os_list st SER_MAX_DEVICE"
  let ?i = "nat (index_spec nam)"
  {
    assume ix: "indexed_form_spec nam"
    from indexed_form_is_serX [OF ix]
    have ser: "is_serX nam" and at: "atoi (drop 3 nam) = index_spec nam" and nn: "0 \<le> index_spec nam"
      by simp_all
    have t: "translate_name os_list st nam =
        (case sim_serial_getname os_list st (index_spec nam) of
           None \<Rightarrow> None
         | Some savname \<Rightarrow> Some (savname, sim_serial_getdesc_byname os_list st savname))"
      using ser at by (simp add: translate_name_def)
    have g: "sim_serial_getname os_list st (index_spec nam) =
        (if length ?cat \<le> ?i then None else Some (cstr (name (?cat ! ?i))))"
      by (rule sim_serial_getname_index [OF nn])
    {
      assume "length ?cat \<le> ?i"
      then show "translate_name os_list st nam = None"
        and "sim_open_serial os_list sim_open_os_serial nam lp st = (INVALID_HANDLE, st)"
        by (simp_all add: t g sim_open_serial_def)
    }
    have b: "translate_name os_list st nam =
        Some (cstr (name (?cat ! ?i)),
          map_option (\<lambda>e. cstr (desc e))
            (find (\<lambda>e. ci_equal_spec (cstr (name (?cat ! ?i))) (cstr (name e))) ?cat))"
      if "?i < length ?cat"
      using that by (simp add: t g sim_serial_getdesc_byname_find)
    {
      assume "?i < length ?cat"
      then show "translate_name os_list st nam =
        Some (cstr (name (?cat ! ?i)),
          map_option (\<lambda>e. cstr (desc e))
            (find (\<lambda>e. ci_equal_spec (cstr (name (?cat ! ?i))) (cstr (name e))) ?cat))"
        by (rule b)
    }
    {
      assume c: "?i < length ?cat \<and>
        (\<forall>j<?i. \<not> ci_equal_spec (cstr (name (?cat ! ?i))) (cstr (name (?cat ! j))))"
      then have "find (\<lambda>e. ci_equal_spec (cstr (name (?cat ! ?i))) (cstr (name e))) ?cat = Some (?cat ! ?i)"
        by (intro find_first) simp_all
      with b c show "translate_name os_list st nam =
          Some (cstr (name (?cat ! ?i)), Some (cstr (desc (?cat ! ?i))))"
        by simp
    }
  }
  {
    assume long: "5 < length (cstr nam)"
    show eq: "translate_name os_list st nam =
        (case find (\<lambda>e. ci_equal_spec (cstr nam) (cstr (desc e))) ?cat of
           Some e \<Rightarrow> Some (cstr (name e), Some nam)
         | None \<Rightarrow>
            (case find (\<lambda>e. ci_equal_spec (cstr nam) (cstr (name e))) ?cat of
               Some e \<Rightarrow> Some (cstr (name e), Some (cstr (desc e)))
             | None \<Rightarrow> Some (nam, None)))"
      by (rule translate_long_name [OF long])
    show "translate_name os_list st nam \<noteq> None"
      unfolding eq by (simp split: option.splits)
  }
qed

theorem translate_indexed_name_witness:
  "translate_name
     [\<lparr>name = ''COM3'', desc = ''Serial1''\<rparr>, \<lparr>name = ''COM1'', desc = ''Serial0''\<rparr>]
     \<lparr>serial_open_devices = [], serial_open_device_count = 0\<rparr> ''SER1'' =
     Some (''COM3'', Some ''Serial1'') \<and>
   translate_name
     [\<lparr>name = ''COM3'', desc = ''Serial1''\<rparr>, \<lparr>name = ''COM1'', desc = ''Serial0''\<rparr>]
     \<lparr>serial_open_devices = [], serial_open_device_count = 0\<rparr> ''ser42'' = None \<and>
   translate_name
     [\<lparr>name = ''COM3'', desc = ''Serial1''\<rparr>, \<lparr>name = ''COM1'', desc = ''Serial0''\<rparr>]
     \<lparr>serial_open_devices = [], serial_open_device_count = 0\<rparr> ''ser999'' =
     Some (''ser999'', None)"
proof -
  let ?os = "[\<lparr>name = ''COM3'', desc = ''Serial1''\<rparr>, \<lparr>name = ''COM1'', desc = ''Serial0''\<rparr>]"
  let ?st = "\<lparr>serial_open_devices = [], serial_open_device_count = 0\<rparr>"
  let ?cat = "[\<lparr>name = ''COM1'', desc = ''Serial0''\<rparr>, \<lparr>name = ''COM3'', desc = ''Serial1''\<rparr>]"
  have cat: "sim_serial_devices ?os ?st SER_MAX_DEVICE = ?cat"
    by code_simp
  have f1: "indexed_form_spec ''SER1''" and f2: "indexed_form_spec ''ser42''"
    by code_simp+
  have i1: "nat (index_spec ''SER1'') = 1" and i2: "nat (index_spec ''ser42'') = 42"
    by code_simp+
  have ne: "\<not> ci_equal_spec (cstr ''COM3'') (cstr ''COM1'')"
    by code_simp
  have c3: "cstr ''COM3'' = ''COM3''" and s1: "cstr ''Serial1'' = ''Serial1''"
    by code_simp+
  have long: "5 < length (cstr ''ser999'')"
    by code_simp
  have d: "find (\<lambda>e. ci_equal_spec (cstr ''ser999'') (cstr (desc e))) ?cat = None"
    and n: "find (\<lambda>e. ci_equal_spec (cstr ''ser999'') (cstr (name e))) ?cat = None"
    by code_simp+
  from translate_indexed_name [of "''SER1''" ?os ?st "\<lambda>n. 3" 0] f1
  have "translate_name ?os ?st ''SER1'' = Some (''COM3'', Some ''Serial1'')"
    unfolding cat i1 using ne by (simp add: c3 s1)
  moreover from translate_indexed_name [of "''ser42''" ?os ?st "\<lambda>n. 3" 0] f2
  have "translate_name ?os ?st ''ser42'' = None"
    unfolding cat i2 by simp
  moreover have "translate_name ?os ?st ''ser999'' =
      (case find (\<lambda>e. ci_equal_spec (cstr ''ser999'') (cstr (desc e))) (sim_serial_devices ?os ?st SER_MAX_DEVICE) of
         Some e \<Rightarrow> Some (cstr (name e), Some ''ser999'')
       | None \<Rightarrow>
          (case find (\<lambda>e. ci_equal_spec (cstr ''ser999'') (cstr (name e))) (sim_serial_devices ?os ?st SER_MAX_DEVICE) of
             Some e \<Rightarrow> Some (cstr (name e), Some (cstr (desc e)))
           | None \<Rightarrow> Some (''ser999'', None)))"
    using translate_indexed_name [of "''ser999''" ?os ?st "\<lambda>n. 3" 0] long by blast
  then have "translate_name ?os ?st ''ser999'' = Some (''ser999'', None)"
    unfolding cat d n by simp
  ultimately show ?thesis by blast
qed

text \<open>
  C4 as stated fails: \<^verbatim>\<open>ser999\<close> has three digits and is not of the indexed form; it
  is passed through as a device name, or translated through a description that equals
  it. And with two names that are equal under case folding, the description returned
  for the second is that of the first.
\<close>

theorem translate_name_ser999:
  "translate_name [] \<lparr>serial_open_devices = [], serial_open_device_count = 0\<rparr> ''ser999'' =
     Some (''ser999'', None) \<and>
   translate_name [\<lparr>name = ''COM1'', desc = ''ser999''\<rparr>]
     \<lparr>serial_open_devices = [], serial_open_device_count = 0\<rparr> ''ser999'' =
     Some (''COM1'', Some ''ser999'') \<and>
   translate_name [\<lparr>name = ''COM1'', desc = ''first''\<rparr>, \<lparr>name = ''com1'', desc = ''second''\<rparr>]
     \<lparr>serial_open_devices = [], serial_open_device_count = 0\<rparr> ''ser1'' =
     Some (''com1'', Some ''first'') \<and>
   translate_name [\<lparr>name = ''COM1'', desc = ''first''\<rparr>, \<lparr>name = ''COM1'', desc = ''second''\<rparr>]
     \<lparr>serial_open_devices = [], serial_open_device_count = 0\<rparr> ''ser1'' =
     Some (''COM1'', Some ''first'')"
  by code_simp

subsection \<open>Configuring a serial port\<close>

text \<open>
  C8. \<^verbatim>\<open>sim_config_serial\<close> is to return \<^verbatim>\<open>SCPE_OK\<close>, \<^verbatim>\<open>SCPE_ARG\<close> or \<^verbatim>\<open>SCPE_IOERR\<close>.
  On the termios backend a configuration that passes every local check and that
  \<^verbatim>\<open>tcsetattr\<close> then refuses gives \<^verbatim>\<open>SCPE_IERR\<close>, a fourth status.
\<close>

theorem sim_config_serial_unix_tcsetattr_fails:
  "sim_config_serial_unix
     (Some \<lparr>c_ispeed = 9600, c_ospeed = 9600, CSIZE = 8, PARENB = False, PARODD = False, CSTOPB = False\<rparr>)
     (\<lambda>tio. -1)
     \<lparr>baudrate = 9600, charsize = 8, parity = CHR ''N'', stopbits = 1\<rparr> = SCPE_IERR"
proof -
  let ?tio = "\<lparr>c_ispeed = 9600, c_ospeed = 9600, CSIZE = 8, PARENB = False, PARODD = False, CSTOPB = False\<rparr>"
  obtain i tio' where ab: "assign_baud 9600 0 ?tio = (i, tio')"
    by (cases "assign_baud 9600 0 ?tio")
  have "fst (baud_map ! 12) = 9600" "12 < baud_count"
    by (simp_all add: baud_map_def baud_count_def)
  then have "fst (assign_baud 9600 0 ?tio) < baud_count"
    by (intro assign_baud_found [of 0 12]) simp_all
  then have "i \<noteq> baud_count"
    by (simp add: ab)
  then show ?thesis
    by (simp add: sim_config_serial_unix_def ab)
qed

end
